theory Spec2Isabelle
  imports Main "HOL-Library.Char_ord" "HOL-Library.List_Lexorder" "HOL-Library.Multiset"
begin

section \<open>Strings of the JavaScript runtime\<close>

text \<open>
  The tools of \<^verbatim>\<open>src/agents/tools/search-tools.ts\<close> work on JavaScript strings. They are
  modelled as \<^typ>\<open>string\<close>; the three characters that have no literal form are named here.
\<close>

abbreviation backslash :: char where "backslash \<equiv> CHR 0x5C"
abbreviation LF :: char where "LF \<equiv> CHR 0x0A"
abbreviation CR :: char where "CR \<equiv> CHR 0x0D"

text \<open>\<^verbatim>\<open>s.split(sep)\<close> for a one-character separator: the empty string gives one empty piece.\<close>

fun split_on :: "char \<Rightarrow> string \<Rightarrow> string list" where
  "split_on sep [] = [[]]"
| "split_on sep (c # cs) =
     (if c = sep then [] # split_on sep cs
      else (case split_on sep cs of
              [] \<Rightarrow> [[c]]
            | w # ws \<Rightarrow> (c # w) # ws))"

text \<open>\<^verbatim>\<open>xs.join(sep)\<close>.\<close>

fun join_with :: "string \<Rightarrow> string list \<Rightarrow> string" where
  "join_with sep [] = []"
| "join_with sep [x] = x"
| "join_with sep (x # y # ys) = x @ sep @ join_with sep (y # ys)"

definition startsWith :: "string \<Rightarrow> string \<Rightarrow> bool" where
  "startsWith s p = (take (length p) s = p)"

definition endsWith :: "string \<Rightarrow> string \<Rightarrow> bool" where
  "endsWith s p = (length p \<le> length s \<and> drop (length s - length p) s = p)"

text \<open>The decimal form of a non-negative integer, as a template literal prints it.\<close>

function show_nat :: "nat \<Rightarrow> string" where
  "show_nat n =
     (if n < 10 then [char_of (48 + n)]
      else show_nat (n div 10) @ [char_of (48 + n mod 10)])"
  by pat_completeness auto
termination
  by (relation "measure id") auto

section \<open>Node's POSIX path module\<close>

text \<open>
  \<^verbatim>\<open>normalizeString\<close> of Node's \<^verbatim>\<open>path\<close> module works segment by segment: an empty
  segment and \<^verbatim>\<open>.\<close> are dropped, \<^verbatim>\<open>..\<close> removes the last kept segment unless that is
  itself \<^verbatim>\<open>..\<close>, and may be kept only when the path is allowed to climb above its start.
\<close>

fun normalize_segs :: "bool \<Rightarrow> string list \<Rightarrow> string list \<Rightarrow> string list" where
  "normalize_segs allowAboveRoot res [] = res"
| "normalize_segs allowAboveRoot res (s # ss) =
     (if s = [] \<or> s = ''.'' then normalize_segs allowAboveRoot res ss
      else if s = ''..'' then
        (if res \<noteq> [] \<and> last res \<noteq> ''..'' then normalize_segs allowAboveRoot (butlast res) ss
         else if allowAboveRoot then normalize_segs allowAboveRoot (res @ [''..'']) ss
         else normalize_segs allowAboveRoot res ss)
      else normalize_segs allowAboveRoot (res @ [s]) ss)"

definition normalizeString :: "string \<Rightarrow> bool \<Rightarrow> string" where
  "normalizeString p allowAboveRoot =
     join_with ''/'' (normalize_segs allowAboveRoot [] (split_on CHR ''/'' p))"

definition path_normalize :: "string \<Rightarrow> string" where
  "path_normalize p =
     (if p = [] then ''.''
      else
        let isAbsolute = (hd p = CHR ''/'');
            trailingSeparator = (last p = CHR ''/'');
            q = normalizeString p (\<not> isAbsolute)
        in if q = [] then
             (if isAbsolute then ''/'' else if trailingSeparator then ''./'' else ''.'')
           else
             let q' = (if trailingSeparator then q @ ''/'' else q)
             in if isAbsolute then CHR ''/'' # q' else q')"

text \<open>\<^verbatim>\<open>path.join(a, b)\<close>: the non-empty arguments joined by a separator, then normalised.\<close>

definition path_join :: "string \<Rightarrow> string \<Rightarrow> string" where
  "path_join a b =
     (if a = [] \<and> b = [] then ''.''
      else if a = [] then path_normalize b
      else if b = [] then path_normalize a
      else path_normalize (a @ ''/'' @ b))"

text \<open>
  \<^verbatim>\<open>path.resolve(a, b)\<close> reads its arguments from the right, then the working directory
  of the process, until the path built so far is absolute; empty arguments are skipped.
\<close>

definition resolve_step :: "string \<Rightarrow> string \<times> bool \<Rightarrow> string \<times> bool" where
  "resolve_step p st =
     (if snd st \<or> p = [] then st else (p @ ''/'' @ fst st, hd p = CHR ''/''))"

definition path_resolve :: "string \<Rightarrow> string \<Rightarrow> string \<Rightarrow> string" where
  "path_resolve processCwd a b =
     (let st = resolve_step processCwd (resolve_step a (resolve_step b ([], False)));
          resolvedAbsolute = snd st;
          resolvedPath = normalizeString (fst st) (\<not> resolvedAbsolute)
      in if resolvedAbsolute then CHR ''/'' # resolvedPath
         else if resolvedPath \<noteq> [] then resolvedPath else ''.'')"

section \<open>Regular expressions built by the glob compiler\<close>

text \<open>
  \<^verbatim>\<open>matchesPattern\<close> builds the source text of a regular expression and hands it to
  \<^verbatim>\<open>RegExp\<close>. The sources it can build use a small part of the syntax: the anchors, an
  escaped character, the dot (any character but a line terminator), the class
  \<^verbatim>\<open>[^/]\<close>, a literal character, and the star after one of these. \<open>regex_test\<close> reads
  exactly that part and gives \<open>None\<close> for any other source. Of the line terminators, the
  line feed and the carriage return are characters of \<^typ>\<open>string\<close>; the two Unicode
  separators are not.
\<close>

datatype ratom = Lit char | AnyChar | NotSlash

datatype ritem = One ratom | Star ratom

definition regex_special :: "char \<Rightarrow> bool" where
  "regex_special c = (c \<in> set (''.+^${}()|[]'' @ [backslash]))"

fun amatch :: "ratom \<Rightarrow> char \<Rightarrow> bool" where
  "amatch (Lit d) c = (c = d)"
| "amatch AnyChar c = (c \<noteq> LF \<and> c \<noteq> CR)"
| "amatch NotSlash c = (c \<noteq> CHR ''/'')"

text \<open>The atom at the head of a regular expression's source, and the characters it spans.\<close>

definition atom_at :: "string \<Rightarrow> (ratom \<times> nat) option" where
  "atom_at s =
     (case s of
        [] \<Rightarrow> None
      | c # r \<Rightarrow>
          if c = backslash then
            (case r of
               [] \<Rightarrow> None
             | d # _ \<Rightarrow> if regex_special d then Some (Lit d, 2) else None)
          else if c = CHR ''.'' then Some (AnyChar, 1)
          else if c = CHR ''['' then
            (if take 3 r = ''^/]'' then Some (NotSlash, 4) else None)
          else if regex_special c \<or> c = CHR ''*'' \<or> c = CHR ''?'' then None
          else Some (Lit c, 1))"

text \<open>
  The items after the leading \<^verbatim>\<open>^\<close>, and whether the source ends with the anchor \<^verbatim>\<open>$\<close>.
\<close>

function parse_items :: "string \<Rightarrow> (ritem list \<times> bool) option" where
  "parse_items s =
     (if s = [] then Some ([], False)
      else if s = ''$'' then Some ([], True)
      else (case atom_at s of
              None \<Rightarrow> None
            | Some (a, n) \<Rightarrow>
                (if take 1 (drop n s) = ''*''
                 then map_option (\<lambda>(its, e). (Star a # its, e)) (parse_items (drop (Suc n) s))
                 else map_option (\<lambda>(its, e). (One a # its, e)) (parse_items (drop n s)))))"
  by pat_completeness auto
termination
  by (relation "measure length")
     (auto simp: atom_at_def split: list.splits if_splits)

text \<open>
  Matching from the current position: a starred atom takes any number of characters, and
  with the end anchor the items must use the whole rest of the string.
\<close>

fun matches_here :: "ritem list \<Rightarrow> bool \<Rightarrow> string \<Rightarrow> bool" where
  "matches_here [] anchoredEnd s = (\<not> anchoredEnd \<or> s = [])"
| "matches_here (One a # its) anchoredEnd s =
     (case s of
        [] \<Rightarrow> False
      | c # cs \<Rightarrow> amatch a c \<and> matches_here its anchoredEnd cs)"
| "matches_here (Star a # its) anchoredEnd s =
     (matches_here its anchoredEnd s \<or>
      (case s of
         [] \<Rightarrow> False
       | c # cs \<Rightarrow> amatch a c \<and> matches_here (Star a # its) anchoredEnd cs))"

text \<open>\<^verbatim>\<open>new RegExp(source).test(target)\<close> for a source that starts with \<^verbatim>\<open>^\<close>.\<close>

definition regex_test :: "string \<Rightarrow> string \<Rightarrow> bool option" where
  "regex_test source target =
     (case source of
        [] \<Rightarrow> None
      | c # r \<Rightarrow>
          if c = CHR ''^''
          then map_option (\<lambda>(its, e). matches_here its e target) (parse_items r)
          else None)"

section \<open>The glob compiler and \<open>matchesPattern\<close>\<close>

text \<open>
  The four \<^verbatim>\<open>replace\<close> calls of \<^verbatim>\<open>matchesPattern\<close>, in the order of the source. Each
  runs over the whole output of the one before it.
\<close>

definition escape_regex :: "string \<Rightarrow> string" where
  "escape_regex p = concat (map (\<lambda>c. if regex_special c then [backslash, c] else [c]) p)"

fun replace_double_star :: "string \<Rightarrow> string" where
  "replace_double_star (a # b # r) =
     (if a = CHR ''*'' \<and> b = CHR ''*'' then ''.*'' @ replace_double_star r
      else a # replace_double_star (b # r))"
| "replace_double_star r = r"

definition replace_star :: "string \<Rightarrow> string" where
  "replace_star p = concat (map (\<lambda>c. if c = CHR ''*'' then ''[^/]*'' else [c]) p)"

definition replace_question :: "string \<Rightarrow> string" where
  "replace_question p = concat (map (\<lambda>c. if c = CHR ''?'' then ''.'' else [c]) p)"

definition globToRegex :: "string \<Rightarrow> string" where
  "globToRegex pattern =
     (let regexString =
            replace_question (replace_star (replace_double_star (escape_regex pattern)))
      in if endsWith pattern ''/'' then ''^'' @ regexString @ ''.*''
         else ''^'' @ regexString @ ''$'')"

text \<open>
  The body of the callback given to \<^verbatim>\<open>patterns.some\<close>. \<^verbatim>\<open>RegExp\<close> would raise on a
  source it cannot read; the compiled sources can all be read (\<open>regex_test_globToRegex\<close>
  below), so that case does not arise.
\<close>

definition pattern_matches :: "string \<Rightarrow> string \<Rightarrow> string \<Rightarrow> bool" where
  "pattern_matches normalizedPath basename pattern =
     (let hasSlash = (CHR ''/'' \<in> set pattern \<and> \<not> endsWith pattern ''/'');
          matchTarget = (if hasSlash then normalizedPath else basename)
      in regex_test (globToRegex pattern) matchTarget = Some True)"

definition matchesPattern :: "string \<Rightarrow> string \<Rightarrow> string list \<Rightarrow> bool" where
  "matchesPattern filePath basename patterns =
     (if patterns = [] then False
      else
        let normalizedPath = join_with ''/'' (split_on CHR ''/'' filePath)
        in list_ex (pattern_matches normalizedPath basename) patterns)"

section \<open>The file system\<close>

text \<open>
  A directory holds its entries in the order \<^verbatim>\<open>readdir\<close> enumerates them; an entry whose
  \<^verbatim>\<open>isDirectory()\<close> is false is a \<open>File\<close>. \<^verbatim>\<open>fs.stat\<close> walks the segments of an absolute
  path from the root of the file system; a missing segment gives \<^verbatim>\<open>ENOENT\<close>, a segment
  below a file \<^verbatim>\<open>ENOTDIR\<close>. Every directory of the tree can be read.
\<close>

datatype node = File | Dir "(string \<times> node) list"

datatype errno = ENOENT | ENOTDIR

fun fs_lookup :: "string list \<Rightarrow> node \<Rightarrow> errno + node" where
  "fs_lookup [] nd = Inr nd"
| "fs_lookup (s # ss) nd =
     (case nd of
        File \<Rightarrow> Inl ENOTDIR
      | Dir entries \<Rightarrow>
          (case map_of entries s of
             None \<Rightarrow> Inl ENOENT
           | Some child \<Rightarrow> fs_lookup ss child))"

definition fs_stat :: "node \<Rightarrow> string \<Rightarrow> errno + node" where
  "fs_stat fs p = fs_lookup (filter (\<lambda>s. s \<noteq> []) (split_on CHR ''/'' p)) fs"

text \<open>The names a directory can hold, and trees all of whose names are such.\<close>

definition valid_name :: "string \<Rightarrow> bool" where
  "valid_name n = (n \<noteq> [] \<and> n \<noteq> ''.'' \<and> n \<noteq> ''..'' \<and> CHR ''/'' \<notin> set n)"

fun valid_entries :: "(string \<times> node) list \<Rightarrow> bool" where
  "valid_entries [] = True"
| "valid_entries ((name, File) # entries) = (valid_name name \<and> valid_entries entries)"
| "valid_entries ((name, Dir children) # entries) =
     (valid_name name \<and> valid_entries children \<and> valid_entries entries)"

fun distinct_entries :: "(string \<times> node) list \<Rightarrow> bool" where
  "distinct_entries [] = True"
| "distinct_entries ((name, File) # entries) =
     (name \<notin> set (map fst entries) \<and> distinct_entries entries)"
| "distinct_entries ((name, Dir children) # entries) =
     (name \<notin> set (map fst entries) \<and> distinct_entries children \<and> distinct_entries entries)"

text \<open>
  Two trees that hold the same entries and differ only in the order in which each
  directory enumerates them.
\<close>

inductive reorder :: "node \<Rightarrow> node \<Rightarrow> bool" where
  reorder_File: "reorder File File"
| reorder_Dir:
    "list_all2 (\<lambda>a b. fst a = fst b \<and> reorder (snd a) (snd b)) es es' \<Longrightarrow>
     mset es' = mset es'' \<Longrightarrow> reorder (Dir es) (Dir es'')"

section \<open>Parameters, results and errors of the tools\<close>

text \<open>
  \<^verbatim>\<open>readStringParam\<close> and \<^verbatim>\<open>readStringArrayParam\<close> live in \<^verbatim>\<open>common.js\<close>; the
  parameters they read are taken as already read (\<open>None\<close> for \<^verbatim>\<open>undefined\<close>;
  \<open>include_patterns\<close> and \<open>exclude_patterns\<close> are \<^verbatim>\<open>include\<close> and \<^verbatim>\<open>exclude\<close>). The two
  parameters the tools read from the raw object themselves are JavaScript values.
\<close>

datatype jsval = JUndefined | JNull | JBool bool | JNumber int | JString string

record tool_args =
  path :: "string option"

record list_files_args = tool_args +
  recursive :: jsval
  ignore :: "string list option"

record search_args = tool_args +
  pattern :: string
  include_patterns :: "string list option"
  exclude_patterns :: "string list option"
  caseSensitive :: jsval

text \<open>
  What \<^verbatim>\<open>execFile\<close> is called with, and how its promise settles: with the captured
  standard output, or with an error that carries the exit code (or an error name, or
  nothing after a signal), the captured diagnostic output and a message.
\<close>

record exec_request =
  exec_file :: string
  exec_args :: "string list"
  exec_cwd :: string
  exec_maxBuffer :: int

datatype exit_code = CodeNumber int | CodeString string | CodeNull

record exec_error =
  code :: exit_code
  stderr :: "string option"
  message :: string

datatype exec_result = Resolved string | Rejected exec_error

datatype error = ToolInputError string | FsError errno | ExecError exec_error

text \<open>\<^verbatim>\<open>readStringParam(params, "path", { required: false }) ?? "."\<close>.\<close>

definition relativePath :: "'a tool_args_scheme \<Rightarrow> string" where
  "relativePath params = (case path params of None \<Rightarrow> ''.'' | Some p \<Rightarrow> p)"

definition default_ignore :: "string list" where
  "default_ignore = [''.git'', ''node_modules'', ''dist'', ''coverage'']"

section \<open>\<open>list_files\<close>\<close>

text \<open>
  The inner function \<^verbatim>\<open>walk\<close>: the entries of the current directory in enumeration
  order, and the paths pushed on \<^verbatim>\<open>files\<close>, in the order of the pushes.
\<close>

fun walk :: "bool \<Rightarrow> string list \<Rightarrow> (string \<times> node) list \<Rightarrow> string \<Rightarrow> string list" where
  "walk recursive' ignore' [] currentRelative = []"
| "walk recursive' ignore' ((name, File) # entries) currentRelative =
     (let entryRelative = path_join currentRelative name
      in if matchesPattern entryRelative name ignore'
         then walk recursive' ignore' entries currentRelative
         else entryRelative # walk recursive' ignore' entries currentRelative)"
| "walk recursive' ignore' ((name, Dir children) # entries) currentRelative =
     (let entryRelative = path_join currentRelative name
      in if matchesPattern entryRelative name ignore'
         then walk recursive' ignore' entries currentRelative
         else if recursive'
         then walk recursive' ignore' children entryRelative
              @ walk recursive' ignore' entries currentRelative
         else (entryRelative @ ''/'') # walk recursive' ignore' entries currentRelative)"

text \<open>The text returned for the sorted array \<^verbatim>\<open>files\<close>.\<close>

definition list_files_text :: "string list \<Rightarrow> string" where
  "list_files_text files =
     (let MAX_FILES = 1000;
          output = join_with [LF] files
      in if length files > MAX_FILES
         then join_with [LF] (take MAX_FILES files) @ [LF, LF] @ ''... and ''
              @ show_nat (length files - MAX_FILES) @ '' more files.''
         else if output \<noteq> [] then output else ''(empty directory)'')"

text \<open>
  \<^verbatim>\<open>execute\<close> of \<^verbatim>\<open>createListFilesTool\<close>, up to the sorted array: \<open>root\<close> is the tool's
  workspace root, \<open>processCwd\<close> the working directory \<^verbatim>\<open>path.resolve\<close> falls back on.
\<close>

definition list_files_array ::
  "string \<Rightarrow> string \<Rightarrow> list_files_args \<Rightarrow> node \<Rightarrow> error + string list" where
  "list_files_array processCwd root params fs =
     (let recursive' = (recursive params \<noteq> JBool False);
          ignore' = (case ignore params of None \<Rightarrow> default_ignore | Some xs \<Rightarrow> xs);
          targetDir = path_resolve processCwd root (relativePath params)
      in if \<not> startsWith targetDir root
         then Inl (ToolInputError
                (''Access denied: '' @ relativePath params @ '' is outside workspace root.''))
         else (case fs_stat fs targetDir of
                 Inl e \<Rightarrow>
                   if e = ENOENT
                   then Inl (ToolInputError (''Directory not found: '' @ relativePath params))
                   else Inl (FsError e)
               | Inr File \<Rightarrow>
                   Inl (ToolInputError (relativePath params @ '' is not a directory.''))
               | Inr (Dir entries) \<Rightarrow>
                   Inr (sort (walk recursive' ignore' entries
                          (if relativePath params = ''.'' then [] else relativePath params)))))"

definition list_files ::
  "string \<Rightarrow> string \<Rightarrow> list_files_args \<Rightarrow> node \<Rightarrow> error + string" where
  "list_files processCwd root params fs =
     (case list_files_array processCwd root params fs of
        Inl e \<Rightarrow> Inl e
      | Inr files \<Rightarrow> Inr (list_files_text files))"

section \<open>\<open>search\<close>\<close>

text \<open>The argument vector \<^verbatim>\<open>grepArgs\<close>, in the order of the pushes.\<close>

definition grepArgs :: "search_args \<Rightarrow> string list" where
  "grepArgs params =
     (let exclude' = (case exclude_patterns params of None \<Rightarrow> default_ignore | Some xs \<Rightarrow> xs);
          caseSensitive' = (caseSensitive params = JBool True)
      in [''-rIn'']
         @ (if \<not> caseSensitive' then [''-i''] else [])
         @ [''-E'']
         @ (case include_patterns params of
              None \<Rightarrow> []
            | Some incs \<Rightarrow> concat (map (\<lambda>inc. [''--include'', inc]) incs))
         @ concat (map (\<lambda>exc. [''--exclude'', exc, ''--exclude-dir'', exc]) exclude')
         @ [''-e'', pattern params]
         @ [relativePath params])"

definition grep_request :: "string \<Rightarrow> search_args \<Rightarrow> exec_request" where
  "grep_request root params =
     \<lparr>exec_file = ''grep'', exec_args = grepArgs params, exec_cwd = root,
      exec_maxBuffer = 1024 * 1024\<rparr>"

text \<open>The text returned for the non-empty lines of the captured output.\<close>

definition search_text :: "string list \<Rightarrow> string" where
  "search_text lines =
     (let MAX_LINES = 500;
          output = join_with [LF] lines
      in if length lines > MAX_LINES
         then join_with [LF] (take MAX_LINES lines) @ [LF, LF] @ ''... and ''
              @ show_nat (length lines - MAX_LINES) @ '' more matches.''
         else if output \<noteq> [] then output else ''No matches found.'')"

text \<open>
  \<^verbatim>\<open>execute\<close> of \<^verbatim>\<open>createSearchTool\<close>; \<open>exec\<close> stands for \<^verbatim>\<open>execFileAsync\<close>, which
  starts the named program with the argument vector as it is (no shell reads it).
\<close>

definition search ::
  "string \<Rightarrow> string \<Rightarrow> search_args \<Rightarrow> (exec_request \<Rightarrow> exec_result) \<Rightarrow> error + string" where
  "search processCwd root params exec =
     (let targetDir = path_resolve processCwd root (relativePath params)
      in if \<not> startsWith targetDir root
         then Inl (ToolInputError
                (''Access denied: '' @ relativePath params @ '' is outside workspace root.''))
         else (case exec (grep_request root params) of
                 Resolved stdout \<Rightarrow>
                   Inr (search_text (filter (\<lambda>l. l \<noteq> []) (split_on LF stdout)))
               | Rejected err \<Rightarrow>
                   if code err = CodeNumber 1 then Inr ''No matches found.''
                   else if code err = CodeNumber 2
                   then Inl (ToolInputError (''Grep error: '' @
                          (case stderr err of
                             None \<Rightarrow> message err
                           | Some d \<Rightarrow> if d \<noteq> [] then d else message err)))
                   else Inl (ExecError err)))"

section \<open>Definitions used in the statements and proofs\<close>

text \<open>
  The four passes of the glob compiler as one pass over the pattern, and the items the
  compiled source parses to. Both are shown below to agree with the compiler.
\<close>

fun glob_regex :: "string \<Rightarrow> string" where
  "glob_regex [] = []"
| "glob_regex (c # r) =
     (if c = CHR ''*'' then
        (case r of
           [] \<Rightarrow> ''[^/]*''
         | d # r' \<Rightarrow> if d = CHR ''*'' then ''.[^/]*'' @ glob_regex r' else ''[^/]*'' @ glob_regex r)
      else if c = CHR ''?'' then ''.'' @ glob_regex r
      else if regex_special c then [backslash, c] @ glob_regex r
      else c # glob_regex r)"

fun glob_items :: "string \<Rightarrow> ritem list" where
  "glob_items [] = []"
| "glob_items (c # r) =
     (if c = CHR ''*'' then
        (case r of
           [] \<Rightarrow> [Star NotSlash]
         | d # r' \<Rightarrow> if d = CHR ''*'' then One AnyChar # Star NotSlash # glob_items r'
                     else Star NotSlash # glob_items r)
      else if c = CHR ''?'' then One AnyChar # glob_items r
      else One (Lit c) # glob_items r)"

text \<open>
  A relative path in the form \<^verbatim>\<open>path.join\<close> leaves untouched: names joined by single
  separators. The segments of a path.
\<close>

definition clean_rel :: "string \<Rightarrow> bool" where
  "clean_rel p = list_all valid_name (split_on CHR ''/'' p)"

definition path_segments :: "string \<Rightarrow> string list" where
  "path_segments p = filter (\<lambda>s. s \<noteq> []) (split_on CHR ''/'' p)"

text \<open>
  What \<^verbatim>\<open>path.join(cur, name)\<close> puts before a valid name: the normalised segments of
  \<open>cur\<close>, each followed by a separator, after the leading separator of an absolute
  \<open>cur\<close>; nothing when \<open>cur\<close> is empty or normalises to \<^verbatim>\<open>.\<close>. The walk starts with
  the path argument as \<open>cur\<close>, and with the empty string when the argument is \<^verbatim>\<open>.\<close>;
  \<open>start_prefix\<close> is the prefix of that first \<open>cur\<close>.
\<close>

definition entry_prefix :: "string \<Rightarrow> string" where
  "entry_prefix cur =
     (let isAbsolute = (cur \<noteq> [] \<and> hd cur = CHR ''/'');
          segs = normalize_segs (\<not> isAbsolute) [] (split_on CHR ''/'' cur)
      in (if isAbsolute then ''/'' else [])
         @ (if segs = [] then [] else join_with ''/'' segs @ ''/''))"

definition start_prefix :: "string \<Rightarrow> string" where
  "start_prefix p = entry_prefix (if p = ''.'' then [] else p)"

text \<open>
  A resolved path lies within the root when the root's segments are the first segments
  of the path.
\<close>

definition within_root :: "string \<Rightarrow> string \<Rightarrow> bool" where
  "within_root root target =
     (take (length (path_segments root)) (path_segments target) = path_segments root)"

text \<open>\<^verbatim>\<open>hay.includes(needle)\<close>.\<close>

definition includes_str :: "string \<Rightarrow> string \<Rightarrow> bool" where
  "includes_str hay needle =
     list_ex (\<lambda>i. take (length needle) (drop i hay) = needle) [0..<Suc (length hay)]"

text \<open>
  The workspace of \<^verbatim>\<open>search-tools.test.ts\<close>, mounted at \<^verbatim>\<open>/ws\<close>, beside a sibling
  directory whose name starts with the root's name.
\<close>

definition workspace_entries :: "(string \<times> node) list" where
  "workspace_entries =
     [(''src'', Dir [(''index.ts'', File), (''utils.ts'', File),
                     (''nested_modules'', Dir [(''nested.js'', File)])]),
      (''test'', Dir [(''index.test.ts'', File)]),
      (''node_modules'', Dir [(''foo.js'', File)]),
      (''README.md'', File)]"

definition example_fs :: node where
  "example_fs = Dir [(''ws'', Dir workspace_entries), (''ws-other'', Dir [(''secret.txt'', File)])]"

definition list_args :: "string option \<Rightarrow> string list option \<Rightarrow> list_files_args" where
  "list_args p ign = \<lparr>path = p, recursive = JUndefined, ignore = ign\<rparr>"

text \<open>
  A basename that some pattern of the list matches as a basename (the patterns without
  an interior slash), and the patterns with an interior slash, which are matched against
  the whole path. A path without the slash that marks a directory in a non-recursive
  listing, and trees whose names are valid, or distinct within each directory.
\<close>

definition basename_ignored :: "string list \<Rightarrow> string \<Rightarrow> bool" where
  "basename_ignored ign n =
     list_ex (\<lambda>X. \<not> (CHR ''/'' \<in> set X \<and> \<not> endsWith X ''/'')
                  \<and> regex_test (globToRegex X) n = Some True) ign"

definition hasSlash :: "string \<Rightarrow> bool" where
  "hasSlash q = (CHR ''/'' \<in> set q \<and> \<not> endsWith q ''/'')"

definition without_trailing_slash :: "string \<Rightarrow> string" where
  "without_trailing_slash r = (if endsWith r ''/'' then butlast r else r)"

definition valid_node :: "node \<Rightarrow> bool" where
  "valid_node nd = (case nd of File \<Rightarrow> True | Dir entries \<Rightarrow> valid_entries entries)"

definition distinct_node :: "node \<Rightarrow> bool" where
  "distinct_node nd = (case nd of File \<Rightarrow> True | Dir entries \<Rightarrow> distinct_entries entries)"

text \<open>
  The lists of segments \<^verbatim>\<open>normalizeString\<close> returns: some \<^verbatim>\<open>..\<close>, where the path may
  climb, then valid names.
\<close>

definition nf_segs :: "bool \<Rightarrow> string list \<Rightarrow> bool" where
  "nf_segs allow N =
     (\<exists>k M. N = replicate k ''..'' @ M \<and> list_all valid_name M \<and> (\<not> allow \<longrightarrow> k = 0))"

text \<open>
  The listing as the specification describes it: the entries below the start in
  enumeration order, each written as a prefix followed by its names below the start, by
  plain concatenation, and tested against the ignore patterns in that form. An ignored
  entry is left out with everything below it.
\<close>

fun root_relative_listing ::
  "bool \<Rightarrow> string list \<Rightarrow> (string \<times> node) list \<Rightarrow> string \<Rightarrow> string list" where
  "root_relative_listing rec ign [] pre = []"
| "root_relative_listing rec ign ((name, File) # entries) pre =
     (if matchesPattern (pre @ name) name ign
      then root_relative_listing rec ign entries pre
      else (pre @ name) # root_relative_listing rec ign entries pre)"
| "root_relative_listing rec ign ((name, Dir children) # entries) pre =
     (if matchesPattern (pre @ name) name ign
      then root_relative_listing rec ign entries pre
      else if rec
      then root_relative_listing rec ign children (pre @ name @ ''/'')
           @ root_relative_listing rec ign entries pre
      else (pre @ name @ ''/'') # root_relative_listing rec ign entries pre)"

text \<open>Reading a decimal number back.\<close>

fun read_nat :: "string \<Rightarrow> nat" where
  "read_nat s = foldl (\<lambda>acc c. 10 * acc + (of_char c - 48)) 0 s"

text \<open>
  Example inputs: a search with default parameters, a search process that fails with a
  given exit code and diagnostic output, and one tree enumerated in two orders.
\<close>

definition search_args_ex :: "string \<Rightarrow> search_args" where
  "search_args_ex q = \<lparr>path = None, pattern = q, include_patterns = None,
          exclude_patterns = None, caseSensitive = JUndefined\<rparr>"

definition exit_with :: "int \<Rightarrow> string \<Rightarrow> exec_request \<Rightarrow> exec_result" where
  "exit_with n diag r = Rejected \<lparr>code = CodeNumber n, stderr = Some diag, message = ''Command failed: grep''\<rparr>"

text \<open>
  How the command line of \<^verbatim>\<open>grep\<close> reads an argument vector of the tool: \<^verbatim>\<open>-e\<close>,
  \<^verbatim>\<open>--include\<close>, \<^verbatim>\<open>--exclude\<close> and \<^verbatim>\<open>--exclude-dir\<close> take the next element as
  their value, whatever it is; every other element stands for itself. A process that
  answers with the vector it was given.
\<close>

definition takes_value :: "string \<Rightarrow> bool" where
  "takes_value a = (a = ''-e'' \<or> a = ''--include'' \<or> a = ''--exclude'' \<or> a = ''--exclude-dir'')"

fun read_options :: "string list \<Rightarrow> (string \<times> string option) list" where
  "read_options [] = []"
| "read_options [a] = [(a, None)]"
| "read_options (a # v # rest) =
     (if takes_value a then (a, Some v) # read_options rest
      else (a, None) # read_options (v # rest))"

definition echo_args :: "exec_request \<Rightarrow> exec_result" where
  "echo_args r = Resolved (join_with '' '' (exec_args r))"

definition order_a :: node where
  "order_a = Dir [(''ws'', Dir [(''b.txt'', File), (''d'', Dir [(''y'', File), (''x'', File)]), (''a.txt'', File)])]"

definition order_b :: node where
  "order_b = Dir [(''ws'', Dir [(''a.txt'', File), (''b.txt'', File), (''d'', Dir [(''x'', File), (''y'', File)])])]"

declare parse_items.simps [simp del]
declare show_nat.simps [simp del]

section \<open>Splitting and joining\<close>

lemma split_on_nonempty: "split_on c s \<noteq> []"
  by (induction s) (auto split: list.splits)

lemma split_on_notin: "c \<notin> set s \<Longrightarrow> split_on c s = [s]"
  by (induction s) (auto split: list.splits)

lemma split_on_append: "split_on c (a @ c # b) = split_on c a @ split_on c b"
  by (induction a) (auto split: list.splits simp: split_on_nonempty)

lemma join_split: "join_with [c] (split_on c s) = s"
proof (induction s)
  case Nil
  then show ?case by simp
next
  case (Cons x s)
  show ?case
  proof (cases "x = c")
    case True
    then show ?thesis using Cons
      by (cases "split_on c s") (auto simp: split_on_nonempty)
  next
    case False
    then show ?thesis using Cons
      by (cases "split_on c s"; cases "tl (split_on c s)") (auto simp: split_on_nonempty)
  qed
qed

section \<open>Paths that \<open>path.join\<close> leaves untouched\<close>

lemma normalize_segs_clean:
  "\<forall>s \<in> set ss. s \<noteq> [] \<and> s \<noteq> ''.'' \<and> s \<noteq> ''..'' \<Longrightarrow> normalize_segs allow res ss = res @ ss"
  by (induction ss arbitrary: res) auto

lemma clean_rel_normalizeString: "clean_rel p \<Longrightarrow> normalizeString p allow = p"
  unfolding clean_rel_def normalizeString_def
  by (subst normalize_segs_clean) (auto simp: list_all_iff valid_name_def join_split)

lemma clean_rel_nonempty: "clean_rel p \<Longrightarrow> p \<noteq> []"
  by (auto simp: clean_rel_def valid_name_def)

lemma clean_rel_hd: "clean_rel p \<Longrightarrow> hd p \<noteq> CHR ''/''"
  by (cases p) (auto simp: clean_rel_def valid_name_def)

lemma clean_rel_snoc:
  assumes "clean_rel cur" "valid_name n"
  shows "clean_rel (cur @ ''/'' @ n)"
  using assms unfolding clean_rel_def
  by (simp add: split_on_append split_on_notin valid_name_def)

lemma clean_rel_valid_name: "valid_name n \<Longrightarrow> clean_rel n"
  by (simp add: clean_rel_def split_on_notin valid_name_def)

lemma clean_rel_last: "clean_rel p \<Longrightarrow> last p \<noteq> CHR ''/''"
proof
  assume c: "clean_rel p" and l: "last p = CHR ''/''"
  from c have ne: "p \<noteq> []" by (rule clean_rel_nonempty)
  then have "p = butlast p @ CHR ''/'' # []" using l by (metis append_butlast_last_id)
  then have "split_on CHR ''/'' p = split_on CHR ''/'' (butlast p) @ [[]]"
    by (metis split_on_append split_on.simps(1))
  with c show False by (simp add: clean_rel_def valid_name_def)
qed

lemma path_normalize_clean: "clean_rel p \<Longrightarrow> path_normalize p = p"
  by (simp add: path_normalize_def Let_def clean_rel_nonempty clean_rel_hd clean_rel_last
      clean_rel_normalizeString)

lemma path_join_clean:
  "clean_rel cur \<Longrightarrow> valid_name n \<Longrightarrow> path_join cur n = cur @ ''/'' @ n"
  using path_normalize_clean[OF clean_rel_snoc, of cur n]
  by (auto simp: path_join_def clean_rel_nonempty valid_name_def)

lemma path_join_empty: "valid_name n \<Longrightarrow> path_join [] n = n"
  using path_normalize_clean[OF clean_rel_valid_name, of n]
  by (auto simp: path_join_def valid_name_def)

section \<open>What \<open>path.join\<close> puts before a name\<close>

lemma split_on_mem_notin: "s \<in> set (split_on c p) \<Longrightarrow> c \<notin> set s"
  by (induction p arbitrary: s) (auto split: list.splits if_splits)

lemma join_with_snoc: "xs \<noteq> [] \<Longrightarrow> join_with sep (xs @ [x]) = join_with sep xs @ sep @ x"
  by (induction sep xs rule: join_with.induct) auto

lemma normalize_segs_append:
  "normalize_segs a r (xs @ ys) = normalize_segs a (normalize_segs a r xs) ys"
  by (induction xs arbitrary: r) auto

lemma normalize_segs_valid: "valid_name n \<Longrightarrow> normalize_segs a R [n] = R @ [n]"
  by (simp add: valid_name_def)

lemma nf_segs_Nil: "nf_segs a []"
  unfolding nf_segs_def by (rule exI[of _ 0], rule exI[of _ "[]"]) simp

lemma nf_step:
  assumes nf: "nf_segs a R" and s: "CHR ''/'' \<notin> set s"
  shows "nf_segs a (normalize_segs a R [s])"
proof -
  from nf obtain k M where R: "R = replicate k ''..'' @ M" and M: "list_all valid_name M"
    and k: "\<not> a \<longrightarrow> k = 0"
    unfolding nf_segs_def by blast
  show ?thesis
  proof (cases "s = [] \<or> s = ''.''")
    case True
    then show ?thesis using nf by auto
  next
    case ns: False
    show ?thesis
    proof (cases "s = ''..''")
      case dd: True
      show ?thesis
      proof (cases "M = []")
        case True
        then have l: "R = [] \<or> last R = ''..''" using R by (cases k) auto
        show ?thesis
        proof (cases a)
          case a: True
          have "nf_segs a (replicate (Suc k) ''..'')"
            unfolding nf_segs_def using a
            by (intro exI[of _ "Suc k"] exI[of _ "[]"]) simp
          moreover have "R @ [''..''] = replicate (Suc k) ''..''"
            using R True by (simp add: replicate_append_same)
          moreover have "normalize_segs a R [s] = R @ [''..'']"
            using dd l a by auto
          ultimately show ?thesis by simp
        next
          case False
          then have "normalize_segs a R [s] = R" using dd l by auto
          then show ?thesis using nf by simp
        qed
      next
        case False
        then have "last R = last M" and "R \<noteq> []" using R by simp_all
        moreover have "valid_name (last M)" using M False by (simp add: list_all_iff)
        ultimately have l: "R \<noteq> [] \<and> last R \<noteq> ''..''" by (auto simp: valid_name_def)
        have b: "butlast R = replicate k ''..'' @ butlast M"
          using R False by (simp add: butlast_append)
        have "list_all valid_name (butlast M)"
          using M by (auto simp: list_all_iff dest: in_set_butlastD)
        then have "nf_segs a (butlast R)"
          unfolding nf_segs_def b using k by blast
        then show ?thesis using dd l by simp
      qed
    next
      case False
      then have v: "valid_name s" using ns s by (simp add: valid_name_def)
      have "R @ [s] = replicate k ''..'' @ (M @ [s])" using R by simp
      moreover have "list_all valid_name (M @ [s])" using M v by simp
      ultimately have "nf_segs a (R @ [s])" unfolding nf_segs_def using k by blast
      then show ?thesis unfolding normalize_segs_valid[OF v] .
    qed
  qed
qed

lemma nf_out:
  "\<forall>s \<in> set xs. CHR ''/'' \<notin> set s \<Longrightarrow> nf_segs a R \<Longrightarrow> nf_segs a (normalize_segs a R xs)"
proof (induction xs arbitrary: R)
  case Nil
  then show ?case by simp
next
  case (Cons s ss)
  have "normalize_segs a R (s # ss) = normalize_segs a (normalize_segs a R [s]) ss"
    using normalize_segs_append[of a R "[s]" ss] by simp
  moreover have "nf_segs a (normalize_segs a R [s])"
    using Cons.prems by (intro nf_step) auto
  ultimately show ?case using Cons.IH Cons.prems(1) by simp
qed

lemma normalize_dots:
  "normalize_segs True (replicate j ''..'') (replicate k ''..'') = replicate (j + k) ''..''"
proof (induction k arbitrary: j)
  case 0
  show ?case by simp
next
  case (Suc k)
  have l: "replicate j ''..'' = [] \<or> last (replicate j ''..'') = ''..''" by (cases j) auto
  have "normalize_segs True (replicate j ''..'') (replicate (Suc k) ''..'')
        = normalize_segs True (replicate (Suc j) ''..'') (replicate k ''..'')"
    using l by (auto simp: replicate_append_same)
  then show ?case using Suc[of "Suc j"] by simp
qed

lemma nf_idem:
  assumes "nf_segs a N"
  shows "normalize_segs a [] N = N"
proof -
  from assms obtain k M where N: "N = replicate k ''..'' @ M" and M: "list_all valid_name M"
    and k: "\<not> a \<longrightarrow> k = 0"
    unfolding nf_segs_def by blast
  have c: "\<forall>s \<in> set M. s \<noteq> [] \<and> s \<noteq> ''.'' \<and> s \<noteq> ''..''"
    using M by (auto simp: list_all_iff valid_name_def)
  have d: "normalize_segs a [] (replicate k ''..'') = replicate k ''..''"
  proof (cases a)
    case True
    then show ?thesis using normalize_dots[of 0 k] by simp
  next
    case False
    then show ?thesis using k by simp
  qed
  show ?thesis unfolding N normalize_segs_append d
    by (rule normalize_segs_clean[OF c])
qed

lemma nf_mem:
  assumes "nf_segs a N" "s \<in> set N"
  shows "s \<noteq> [] \<and> CHR ''/'' \<notin> set s"
proof -
  from assms(1) obtain k M where N: "N = replicate k ''..'' @ M" and M: "list_all valid_name M"
    unfolding nf_segs_def by blast
  from assms(2) have "s = ''..'' \<or> s \<in> set M" unfolding N by auto
  then show ?thesis
  proof
    assume "s = ''..''"
    then show ?thesis by simp
  next
    assume "s \<in> set M"
    then have "valid_name s" using M by (simp add: list_all_iff)
    then show ?thesis by (simp add: valid_name_def)
  qed
qed

lemma split_join_segs:
  "segs \<noteq> [] \<Longrightarrow> \<forall>s \<in> set segs. c \<notin> set s \<Longrightarrow> split_on c (join_with [c] segs) = segs"
proof (induction segs)
  case Nil
  then show ?case by simp
next
  case (Cons n ns)
  show ?case
  proof (cases ns)
    case Nil
    then show ?thesis using Cons.prems by (simp add: split_on_notin)
  next
    case (Cons m ms)
    then have "join_with [c] (n # ns) = n @ c # join_with [c] ns" by simp
    then show ?thesis using Cons.IH Cons.prems Cons
      by (simp add: split_on_append split_on_notin del: join_with.simps)
  qed
qed

lemma hd_join:
  "segs \<noteq> [] \<Longrightarrow> hd segs \<noteq> [] \<Longrightarrow> join_with sep segs \<noteq> [] \<and> hd (join_with sep segs) = hd (hd segs)"
  by (induction sep segs rule: join_with.induct) auto

lemma entry_segs:
  fixes cur
  defines "ab \<equiv> (cur \<noteq> [] \<and> hd cur = CHR ''/'')"
  defines "N \<equiv> normalize_segs (\<not> ab) [] (split_on CHR ''/'' cur)"
  assumes v: "valid_name n"
  shows "entry_prefix cur @ n = (if ab then ''/'' else []) @ join_with ''/'' (N @ [n])"
    and "nf_segs (\<not> ab) N"
proof -
  show "entry_prefix cur @ n = (if ab then ''/'' else []) @ join_with ''/'' (N @ [n])"
    unfolding entry_prefix_def Let_def ab_def[symmetric] N_def[symmetric]
    by (cases "N = []") (simp_all add: join_with_snoc)
  show "nf_segs (\<not> ab) N" unfolding N_def
    by (rule nf_out) (auto simp: nf_segs_Nil dest: split_on_mem_notin)
qed

lemma path_join_entry:
  assumes v: "valid_name n"
  shows "path_join cur n = entry_prefix cur @ n"
proof (cases "cur = []")
  case True
  then show ?thesis using path_join_empty[OF v]
    by (simp add: entry_prefix_def)
next
  case False
  let ?ab = "hd cur = CHR ''/''"
  let ?N = "normalize_segs (\<not> ?ab) [] (split_on CHR ''/'' cur)"
  let ?p = "cur @ ''/'' @ n"
  from v have n: "n \<noteq> []" "CHR ''/'' \<notin> set n" by (simp_all add: valid_name_def)
  have ln: "last n \<noteq> CHR ''/''"
  proof
    assume "last n = CHR ''/''"
    moreover have "last n \<in> set n" using n(1) by simp
    ultimately show False using n(2) by simp
  qed
  have sp: "split_on CHR ''/'' ?p = split_on CHR ''/'' cur @ [n]"
    using n(2) by (simp add: split_on_append split_on_notin)
  have q: "normalizeString ?p (\<not> ?ab) = join_with ''/'' (?N @ [n])"
    unfolding normalizeString_def sp normalize_segs_append normalize_segs_valid[OF v] ..
  have qne: "join_with ''/'' (?N @ [n]) \<noteq> []"
    using n(1) by (cases "?N = []") (simp_all add: join_with_snoc)
  have "path_join cur n = path_normalize ?p"
    using False n(1) by (simp add: path_join_def)
  also have "\<dots> = (if ?ab then ''/'' else []) @ join_with ''/'' (?N @ [n])"
    using False n(1) ln q qne by (simp add: path_normalize_def Let_def)
  also have "\<dots> = entry_prefix cur @ n"
    using entry_segs(1)[OF v, of cur] False by simp
  finally show ?thesis .
qed

lemma entry_prefix_step:
  assumes v: "valid_name n"
  shows "entry_prefix (entry_prefix cur @ n) = entry_prefix cur @ n @ ''/''"
proof -
  let ?ab = "cur \<noteq> [] \<and> hd cur = CHR ''/''"
  let ?N = "normalize_segs (\<not> ?ab) [] (split_on CHR ''/'' cur)"
  let ?S = "?N @ [n]"
  let ?c = "entry_prefix cur @ n"
  from v have n: "n \<noteq> []" "CHR ''/'' \<notin> set n" by (simp_all add: valid_name_def)
  have c: "?c = (if ?ab then ''/'' else []) @ join_with ''/'' ?S"
    by (rule entry_segs(1)[OF v])
  have nf: "nf_segs (\<not> ?ab) ?N" by (rule entry_segs(2)[OF v])
  have mem: "\<forall>s \<in> set ?S. s \<noteq> [] \<and> CHR ''/'' \<notin> set s"
    using nf_mem[OF nf] n by auto
  have "hd ?S \<in> set ?S" by (rule hd_in_set) simp
  with mem have hS: "hd ?S \<noteq> []" "CHR ''/'' \<notin> set (hd ?S)"
    by blast+
  have j: "join_with ''/'' ?S \<noteq> []" "hd (join_with ''/'' ?S) = hd (hd ?S)"
    using hd_join[of ?S "''/''"] hS(1) by simp_all
  have "hd (hd ?S) \<in> set (hd ?S)" using hS(1) by simp
  then have hj: "hd (join_with ''/'' ?S) \<noteq> CHR ''/''" using j(2) hS(2) by auto
  have ab': "(?c \<noteq> [] \<and> hd ?c = CHR ''/'') = ?ab"
    unfolding c using j(1) hj by auto
  have sj: "split_on CHR ''/'' (join_with ''/'' ?S) = ?S"
    using mem by (intro split_join_segs) auto
  have sp: "normalize_segs (\<not> ?ab) [] (split_on CHR ''/'' ?c) = ?S"
  proof -
    have "normalize_segs (\<not> ?ab) [] (split_on CHR ''/'' ?c) = normalize_segs (\<not> ?ab) [] ?S"
      unfolding c using sj by (cases ?ab) simp_all
    also have "\<dots> = normalize_segs (\<not> ?ab) ?N [n]"
      unfolding normalize_segs_append nf_idem[OF nf] ..
    also have "\<dots> = ?S" by (rule normalize_segs_valid[OF v])
    finally show ?thesis .
  qed
  have "entry_prefix ?c = (if ?ab then ''/'' else []) @ join_with ''/'' ?S @ ''/''"
    unfolding entry_prefix_def[of ?c] Let_def ab' sp by simp
  then show ?thesis using c by simp
qed

lemma entry_prefix_clean: "clean_rel p \<Longrightarrow> entry_prefix p = p @ ''/''"
proof -
  assume c: "clean_rel p"
  have s: "\<forall>s \<in> set (split_on CHR ''/'' p). s \<noteq> [] \<and> s \<noteq> ''.'' \<and> s \<noteq> ''..''"
    using c by (auto simp: clean_rel_def list_all_iff valid_name_def)
  show ?thesis
    using clean_rel_hd[OF c] clean_rel_nonempty[OF c]
    by (simp add: entry_prefix_def normalize_segs_clean[OF s] split_on_nonempty join_split)
qed

lemma entry_prefix_Nil: "entry_prefix [] = []"
  by (simp add: entry_prefix_def)

section \<open>The compiled pattern\<close>

lemma escape_regex_Cons:
  "escape_regex (c # r) = (if regex_special c then [backslash, c] else [c]) @ escape_regex r"
  by (simp add: escape_regex_def)

lemma star_not_special: "\<not> regex_special CHR ''*''" "\<not> regex_special CHR ''?''" "\<not> regex_special CHR ''/''"
  by (simp_all add: regex_special_def)

lemma rds_Cons_nonstar: "a \<noteq> CHR ''*'' \<Longrightarrow> replace_double_star (a # r) = a # replace_double_star r"
  by (cases r) auto

lemma rds_star_nonstar:
  "hd r \<noteq> CHR ''*'' \<or> r = [] \<Longrightarrow> replace_double_star (CHR ''*'' # r) = CHR ''*'' # replace_double_star r"
  by (cases r) auto

lemma hd_escape_regex: "r \<noteq> [] \<Longrightarrow> hd r \<noteq> CHR ''*'' \<Longrightarrow> hd (escape_regex r) \<noteq> CHR ''*''"
  by (cases r) (auto simp: escape_regex_Cons)

lemma replace_star_Cons: "replace_star (c # r) = (if c = CHR ''*'' then ''[^/]*'' else [c]) @ replace_star r"
  by (simp add: replace_star_def)

lemma replace_question_Cons: "replace_question (c # r) = (if c = CHR ''?'' then ''.'' else [c]) @ replace_question r"
  by (simp add: replace_question_def)

lemma glob_passes_fused:
  "replace_question (replace_star (replace_double_star (escape_regex p))) = glob_regex p"
proof (induction p rule: glob_regex.induct)
  case 1
  show ?case by (simp add: escape_regex_def replace_star_def replace_question_def)
next
  case (2 c r)
  show ?case
  proof (cases "c = CHR ''*''")
    case star: True
    show ?thesis
    proof (cases r)
      case Nil
      then show ?thesis using star
        by (simp add: escape_regex_def replace_star_def replace_question_def regex_special_def)
    next
      case (Cons d r')
      show ?thesis
      proof (cases "d = CHR ''*''")
        case True
        then show ?thesis using star Cons 2(1)[OF star Cons True]
          by (simp add: escape_regex_Cons star_not_special replace_star_Cons replace_question_Cons)
      next
        case False
        have "hd (escape_regex r) \<noteq> CHR ''*''"
          using Cons False by (intro hd_escape_regex) auto
        then have "replace_double_star (CHR ''*'' # escape_regex r) = CHR ''*'' # replace_double_star (escape_regex r)"
          by (intro rds_star_nonstar) simp
        then show ?thesis using star Cons False 2(2)[OF star Cons False]
          by (simp add: escape_regex_Cons[of "CHR ''*''"] star_not_special replace_star_Cons replace_question_Cons)
      qed
    qed
  next
    case nostar: False
    show ?thesis
    proof (cases "c = CHR ''?''")
      case True
      then show ?thesis using nostar 2(3)[OF nostar True]
        by (simp add: escape_regex_Cons star_not_special rds_Cons_nonstar replace_star_Cons replace_question_Cons)
    next
      case q: False
      show ?thesis
      proof (cases "regex_special c")
        case True
        then show ?thesis using nostar q 2(4)[OF nostar q True]
          by (simp add: escape_regex_Cons rds_Cons_nonstar replace_star_Cons replace_question_Cons)
      next
        case False
        then show ?thesis using nostar q 2(5)[OF nostar q False]
          by (simp add: escape_regex_Cons rds_Cons_nonstar replace_star_Cons replace_question_Cons)
      qed
    qed
  qed
qed


subsection \<open>Parsing the compiled source\<close>

lemma parse_lit:
  "\<not> regex_special c \<Longrightarrow> c \<noteq> CHR ''*'' \<Longrightarrow> c \<noteq> CHR ''?'' \<Longrightarrow> take 1 rest \<noteq> ''*'' \<Longrightarrow>
   parse_items (c # rest) = map_option (\<lambda>(its, e). (One (Lit c) # its, e)) (parse_items rest)"
  by (subst parse_items.simps) (auto simp: atom_at_def regex_special_def)

lemma parse_esc:
  "regex_special c \<Longrightarrow> take 1 rest \<noteq> ''*'' \<Longrightarrow>
   parse_items (backslash # c # rest) = map_option (\<lambda>(its, e). (One (Lit c) # its, e)) (parse_items rest)"
  by (subst parse_items.simps) (auto simp: atom_at_def)

lemma parse_dot:
  "take 1 rest \<noteq> ''*'' \<Longrightarrow>
   parse_items (CHR ''.'' # rest) = map_option (\<lambda>(its, e). (One AnyChar # its, e)) (parse_items rest)"
  by (subst parse_items.simps) (auto simp: atom_at_def)

lemma parse_class_star:
  "parse_items (''[^/]*'' @ rest) = map_option (\<lambda>(its, e). (Star NotSlash # its, e)) (parse_items rest)"
  by (subst parse_items.simps) (auto simp: atom_at_def)

lemma parse_dollar: "parse_items ''$'' = Some ([], True)"
  by (subst parse_items.simps) simp

lemma parse_Nil: "parse_items [] = Some ([], False)"
  by (subst parse_items.simps) simp

lemma parse_dot_star: "parse_items ''.*'' = Some ([Star AnyChar], False)"
  by (subst parse_items.simps) (simp add: atom_at_def parse_Nil)

lemma glob_regex_no_star_head: "take 1 tl' \<noteq> ''*'' \<Longrightarrow> take 1 (glob_regex p @ tl') \<noteq> ''*''"
  by (cases p) (auto split: list.splits)

lemma parse_glob_regex:
  assumes "parse_items tl' = Some (its', e')" "take 1 tl' \<noteq> ''*''"
  shows "parse_items (glob_regex p @ tl') = Some (glob_items p @ its', e')"
proof (induction p rule: glob_items.induct)
  case 1
  show ?case using assms by simp
next
  case (2 c r)
  note ns = glob_regex_no_star_head[OF assms(2)]
  show ?case
  proof (cases "c = CHR ''*''")
    case star: True
    show ?thesis
    proof (cases r)
      case Nil
      then show ?thesis using star assms parse_class_star[of tl'] by simp
    next
      case (Cons d r')
      show ?thesis
      proof (cases "d = CHR ''*''")
        case True
        have "parse_items (CHR ''.'' # ''[^/]*'' @ glob_regex r' @ tl')
              = map_option (\<lambda>(its, e). (One AnyChar # its, e)) (parse_items (''[^/]*'' @ glob_regex r' @ tl'))"
          by (rule parse_dot) simp
        then show ?thesis using star Cons True 2(1)[OF star Cons True]
            parse_class_star[of "glob_regex r' @ tl'"] by simp
      next
        case False
        then show ?thesis using star Cons 2(2)[OF star Cons False]
            parse_class_star[of "glob_regex r @ tl'"] by simp
      qed
    qed
  next
    case nostar: False
    show ?thesis
    proof (cases "c = CHR ''?''")
      case True
      then show ?thesis using nostar 2(3)[OF nostar True] parse_dot[OF ns, of r] by simp
    next
      case q: False
      show ?thesis
      proof (cases "regex_special c")
        case True
        then show ?thesis using nostar q 2(4)[OF nostar q] parse_esc[OF True ns, of r] by simp
      next
        case False
        then show ?thesis using nostar q 2(4)[OF nostar q] parse_lit[OF False nostar q ns, of r] by simp
      qed
    qed
  qed
qed

lemma regex_test_globToRegex:
  "regex_test (globToRegex p) t =
     Some (if endsWith p ''/'' then matches_here (glob_items p @ [Star AnyChar]) False t
           else matches_here (glob_items p) True t)"
proof -
  have a: "parse_items (glob_regex p @ ''$'') = Some (glob_items p @ [], True)"
    by (rule parse_glob_regex[OF parse_dollar]) simp
  have b: "parse_items (glob_regex p @ ''.*'') = Some (glob_items p @ [Star AnyChar], False)"
    by (rule parse_glob_regex[OF parse_dot_star]) simp
  show ?thesis using a b
    by (simp add: regex_test_def globToRegex_def glob_passes_fused)
qed

subsection \<open>Matching\<close>

lemma glob_self_match: "matches_here (glob_items x) True x"
  by (induction x rule: glob_items.induct) (auto split: list.splits)

lemma glob_items_snoc:
  "c \<noteq> CHR ''*'' \<Longrightarrow> c \<noteq> CHR ''?'' \<Longrightarrow> glob_items (q @ [c]) = glob_items q @ [One (Lit c)]"
  by (induction q rule: glob_items.induct) (auto split: list.splits)

lemma matches_needs_lit: "matches_here (xs @ One (Lit c) # ys) e t \<Longrightarrow> c \<in> set t"
proof (induction xs e t rule: matches_here.induct)
  case (1 e s)
  then show ?case by (cases s) auto
next
  case (2 a its e s)
  then show ?case by (cases s) auto
next
  case (3 a its e s)
  from 3(3) have "matches_here (its @ One (Lit c) # ys) e s \<or>
      (\<exists>d cs. s = d # cs \<and> amatch a d \<and> matches_here ((Star a # its) @ One (Lit c) # ys) e cs)"
    by (cases s) auto
  then show ?case
  proof
    assume "matches_here (its @ One (Lit c) # ys) e s"
    then show ?thesis by (rule 3(1))
  next
    assume "\<exists>d cs. s = d # cs \<and> amatch a d \<and> matches_here ((Star a # its) @ One (Lit c) # ys) e cs"
    then obtain d cs where s: "s = d # cs" and m: "matches_here ((Star a # its) @ One (Lit c) # ys) e cs"
      by blast
    from 3(2)[OF s m] show ?thesis by (simp add: s)
  qed
qed

lemma endsWith_slash: "endsWith p ''/'' \<longleftrightarrow> (p \<noteq> [] \<and> last p = CHR ''/'')"
proof (cases p rule: rev_cases)
  case Nil
  then show ?thesis by (simp add: endsWith_def)
next
  case (snoc ys y)
  then show ?thesis by (simp add: endsWith_def)
qed

lemma pattern_self_match:
  "\<not> endsWith p ''/'' \<Longrightarrow> regex_test (globToRegex p) p = Some True"
  by (simp add: regex_test_globToRegex glob_self_match)

lemma trailing_slash_no_match:
  assumes "endsWith p ''/''" "CHR ''/'' \<notin> set t"
  shows "regex_test (globToRegex p) t = Some False"
proof -
  from assms(1) obtain q where p: "p = q @ ''/''"
    by (metis endsWith_slash append_butlast_last_id)
  have "\<not> matches_here (glob_items q @ One (Lit CHR ''/'') # [Star AnyChar]) False t"
    using matches_needs_lit assms(2) by blast
  then show ?thesis using assms(1) by (simp add: regex_test_globToRegex p glob_items_snoc)
qed

text \<open>A pattern without wildcards and without a trailing slash matches itself only.\<close>

lemma glob_items_literal:
  "CHR ''*'' \<notin> set q \<Longrightarrow> CHR ''?'' \<notin> set q \<Longrightarrow> glob_items q = map (\<lambda>c. One (Lit c)) q"
  by (induction q) auto

lemma matches_literal: "matches_here (map (\<lambda>c. One (Lit c)) q) True t \<longleftrightarrow> t = q"
  by (induction q arbitrary: t) (auto split: list.splits)

lemma exact_pattern:
  assumes "CHR ''*'' \<notin> set q" "CHR ''?'' \<notin> set q" "\<not> endsWith q ''/''"
  shows "regex_test (globToRegex q) t = Some (t = q)"
  using assms by (simp add: regex_test_globToRegex glob_items_literal matches_literal)

section \<open>The decimal count and substrings\<close>

lemma read_show_nat: "read_nat (show_nat n) = n"
proof (induction n rule: show_nat.induct)
  case (1 n)
  show ?case
  proof (cases "n < 10")
    case True
    then show ?thesis by (subst show_nat.simps) simp
  next
    case False
    have "read_nat (show_nat n) = 10 * read_nat (show_nat (n div 10)) + n mod 10"
      using False by (subst show_nat.simps) simp
    then show ?thesis using 1[OF False] by simp
  qed
qed

lemma show_nat_1: "show_nat (Suc 0) = ''1''"
  by code_simp

lemma includes_str_append: "includes_str (a @ d) d"
  unfolding includes_str_def list_ex_iff
  by (rule bexI[of _ "length a"]) auto

lemma includes_str_Nil: "includes_str hay []"
  unfolding includes_str_def list_ex_iff by auto

section \<open>The guard\<close>

lemma guard_denies:
  assumes "\<not> startsWith (path_resolve processCwd root (relativePath lparams)) root"
    and "\<not> startsWith (path_resolve processCwd root (relativePath sparams)) root"
  shows "list_files processCwd root lparams fs
           = Inl (ToolInputError (''Access denied: '' @ relativePath lparams
                                  @ '' is outside workspace root.''))"
    and "search processCwd root sparams exec
           = Inl (ToolInputError (''Access denied: '' @ relativePath sparams
                                  @ '' is outside workspace root.''))"
  using assms by (simp_all add: list_files_def list_files_array_def search_def Let_def)

section \<open>What the walk pushes\<close>

lemma not_matched_basename:
  assumes "\<not> matchesPattern fp n ign"
  shows "\<not> basename_ignored ign n"
proof
  assume "basename_ignored ign n"
  then obtain X where X: "X \<in> set ign" "\<not> (CHR ''/'' \<in> set X \<and> \<not> endsWith X ''/'')"
      "regex_test (globToRegex X) n = Some True"
    by (auto simp: basename_ignored_def list_ex_iff)
  have "pattern_matches np n X" for np
    using X(2,3) by (auto simp: pattern_matches_def)
  then have "matchesPattern fp n ign"
    using X(1) by (auto simp: matchesPattern_def list_ex_iff Let_def)
  with assms show False by simp
qed

lemma listed_name_ignored:
  assumes "X \<in> set ign" "CHR ''/'' \<notin> set X"
  shows "basename_ignored ign X"
proof -
  have "\<not> endsWith X ''/''"
  proof
    assume "endsWith X ''/''"
    then have "X \<noteq> []" and "last X = CHR ''/''" by (simp_all add: endsWith_slash)
    then have "CHR ''/'' \<in> set X" using last_in_set[of X] by simp
    with assms(2) show False by simp
  qed
  then have "regex_test (globToRegex X) X = Some True" by (rule pattern_self_match)
  then show ?thesis using assms by (auto simp: basename_ignored_def list_ex_iff)
qed

lemma not_matched_interior:
  assumes "\<not> matchesPattern fp n ign" "q \<in> set ign" "CHR ''/'' \<in> set q" "\<not> endsWith q ''/''"
  shows "regex_test (globToRegex q) fp \<noteq> Some True"
proof
  assume "regex_test (globToRegex q) fp = Some True"
  then have "pattern_matches (join_with ''/'' (split_on CHR ''/'' fp)) n q"
    using assms(3,4) by (simp add: pattern_matches_def join_split)
  then have "matchesPattern fp n ign"
    using assms(2) by (auto simp: matchesPattern_def list_ex_iff Let_def)
  with assms(1) show False by simp
qed

lemma join_with_Cons: "ns \<noteq> [] \<Longrightarrow> join_with sep (n # ns) = n @ sep @ join_with sep ns"
  by (cases ns) auto

lemma walk_listing:
  "valid_entries es \<Longrightarrow> walk rec ign es cur = root_relative_listing rec ign es (entry_prefix cur)"
proof (induction rec ign es cur rule: walk.induct)
  case (1 rec ign cur)
  show ?case by simp
next
  case (2 rec ign name entries cur)
  from "2.prems" have vn: "valid_name name" and ve: "valid_entries entries" by simp_all
  have pj: "path_join cur name = entry_prefix cur @ name" using vn by (rule path_join_entry)
  show ?case
    using "2.IH"(1)[OF refl _ ve] "2.IH"(2)[OF refl _ ve] by (simp add: pj)
next
  case (3 rec ign name children entries cur)
  from "3.prems" have vn: "valid_name name" and vc: "valid_entries children"
    and ve: "valid_entries entries" by simp_all
  have pj: "path_join cur name = entry_prefix cur @ name" using vn by (rule path_join_entry)
  have st: "entry_prefix (entry_prefix cur @ name) = entry_prefix cur @ name @ ''/''"
    using vn by (rule entry_prefix_step)
  show ?case
    using "3.IH"(1)[OF refl _ ve] "3.IH"(2)[OF refl _ _ vc] "3.IH"(3)[OF refl _ _ ve]
      "3.IH"(4)[OF refl _ _ ve]
    by (simp add: pj st)
qed

lemma listing_shape:
  assumes "valid_entries es" "r \<in> set (root_relative_listing rec ign es pre)"
  shows "\<exists>names. names \<noteq> [] \<and> list_all valid_name names
           \<and> list_all (\<lambda>n. \<not> basename_ignored ign n) names
           \<and> \<not> matchesPattern (pre @ join_with ''/'' names) (last names) ign
           \<and> (r = pre @ join_with ''/'' names \<or> r = pre @ join_with ''/'' names @ ''/'')"
  using assms
proof (induction rec ign es pre arbitrary: r rule: root_relative_listing.induct)
  case (1 rec ign pre)
  then show ?case by simp
next
  case (2 rec ign name entries pre)
  from "2.prems"(1) have vn: "valid_name name" and ve: "valid_entries entries" by simp_all
  note mem = "2.prems"(2)
  show ?case
  proof (cases "matchesPattern (pre @ name) name ign")
    case True
    then have "r \<in> set (root_relative_listing rec ign entries pre)" using mem by simp
    then show ?thesis using "2.IH"(1)[OF True ve] by simp
  next
    case False
    then have "r = pre @ name \<or> r \<in> set (root_relative_listing rec ign entries pre)"
      using mem by auto
    then show ?thesis
    proof
      assume r: "r = pre @ name"
      have "[name] \<noteq> [] \<and> list_all valid_name [name]
           \<and> list_all (\<lambda>n. \<not> basename_ignored ign n) [name]
           \<and> \<not> matchesPattern (pre @ join_with ''/'' [name]) (last [name]) ign
           \<and> (r = pre @ join_with ''/'' [name] \<or> r = pre @ join_with ''/'' [name] @ ''/'')"
        using r vn False not_matched_basename[OF False] by simp
      then show ?thesis by blast
    next
      assume "r \<in> set (root_relative_listing rec ign entries pre)"
      then show ?thesis using "2.IH"(2)[OF False ve] by simp
    qed
  qed
next
  case (3 rec ign name children entries pre)
  from "3.prems"(1) have vn: "valid_name name" and vc: "valid_entries children"
    and ve: "valid_entries entries" by simp_all
  note mem = "3.prems"(2)
  show ?case
  proof (cases "matchesPattern (pre @ name) name ign")
    case True
    then have "r \<in> set (root_relative_listing rec ign entries pre)" using mem by simp
    then show ?thesis using "3.IH"(1)[OF True ve] by simp
  next
    case False
    show ?thesis
    proof (cases rec)
      case rec: True
      from mem have "r \<in> set (root_relative_listing rec ign children (pre @ name @ ''/''))
                      \<or> r \<in> set (root_relative_listing rec ign entries pre)"
        using False rec by auto
      then show ?thesis
      proof
        assume "r \<in> set (root_relative_listing rec ign children (pre @ name @ ''/''))"
        from "3.IH"(2)[OF False rec vc this]
        obtain names where n: "names \<noteq> []" "list_all valid_name names"
           "list_all (\<lambda>n. \<not> basename_ignored ign n) names"
           "\<not> matchesPattern ((pre @ name @ ''/'') @ join_with ''/'' names) (last names) ign"
           "r = (pre @ name @ ''/'') @ join_with ''/'' names
                \<or> r = (pre @ name @ ''/'') @ join_with ''/'' names @ ''/''"
          by blast
        have j: "join_with ''/'' (name # names) = name @ ''/'' @ join_with ''/'' names"
          using n(1) by (rule join_with_Cons)
        have "name # names \<noteq> [] \<and> list_all valid_name (name # names)
           \<and> list_all (\<lambda>n. \<not> basename_ignored ign n) (name # names)
           \<and> \<not> matchesPattern (pre @ join_with ''/'' (name # names)) (last (name # names)) ign
           \<and> (r = pre @ join_with ''/'' (name # names)
                \<or> r = pre @ join_with ''/'' (name # names) @ ''/'')"
          using n vn not_matched_basename[OF False] unfolding j by simp
        then show ?thesis by blast
      next
        assume "r \<in> set (root_relative_listing rec ign entries pre)"
        then show ?thesis using "3.IH"(3)[OF False rec ve] by simp
      qed
    next
      case norec: False
      from mem have "r = pre @ name @ ''/'' \<or> r \<in> set (root_relative_listing rec ign entries pre)"
        using False norec by auto
      then show ?thesis
      proof
        assume r: "r = pre @ name @ ''/''"
        have "[name] \<noteq> [] \<and> list_all valid_name [name]
           \<and> list_all (\<lambda>n. \<not> basename_ignored ign n) [name]
           \<and> \<not> matchesPattern (pre @ join_with ''/'' [name]) (last [name]) ign
           \<and> (r = pre @ join_with ''/'' [name] \<or> r = pre @ join_with ''/'' [name] @ ''/'')"
          using r vn False not_matched_basename[OF False] by simp
        then show ?thesis by blast
      next
        assume "r \<in> set (root_relative_listing rec ign entries pre)"
        then show ?thesis using "3.IH"(4)[OF False norec ve] by simp
      qed
    qed
  qed
qed

lemma startsWith_append: "startsWith (a @ b) a"
  by (simp add: startsWith_def)

lemma startsWith_trans:
  assumes "startsWith t (a @ b)"
  shows "startsWith t a"
proof -
  from assms have h: "take (length (a @ b)) t = a @ b" by (simp add: startsWith_def)
  have "take (length a) t = take (length a) (take (length (a @ b)) t)" by simp
  also have "\<dots> = take (length a) (a @ b)" by (simp only: h)
  also have "\<dots> = a" by simp
  finally show ?thesis by (simp add: startsWith_def)
qed

lemma listing_unmatched:
  assumes "\<forall>t bn. startsWith t pre \<longrightarrow> \<not> matchesPattern t bn ign"
  shows "root_relative_listing rec ign es pre = root_relative_listing rec [] es pre"
  using assms
proof (induction rec ign es pre rule: root_relative_listing.induct)
  case (1 rec ign pre)
  show ?case by simp
next
  case (2 rec ign name entries pre)
  have nm: "\<not> matchesPattern (pre @ name) name ign"
    using "2.prems" startsWith_append by blast
  show ?case using "2.IH"(2)[OF nm "2.prems"] nm by (simp add: matchesPattern_def)
next
  case (3 rec ign name children entries pre)
  have nm: "\<not> matchesPattern (pre @ name) name ign"
    using "3.prems" startsWith_append by blast
  have sub: "\<forall>t bn. startsWith t (pre @ name @ ''/'') \<longrightarrow> \<not> matchesPattern t bn ign"
    using "3.prems" startsWith_trans by blast
  show ?case
  proof (cases rec)
    case True
    show ?thesis
      using "3.IH"(2)[OF nm True sub] "3.IH"(3)[OF nm True "3.prems"] nm True
      by (simp add: matchesPattern_def)
  next
    case False
    show ?thesis
      using "3.IH"(4)[OF nm False "3.prems"] nm False
      by (simp add: matchesPattern_def)
  qed
qed

lemma valid_entries_child:
  "valid_entries es \<Longrightarrow> (n, c) \<in> set es \<Longrightarrow> valid_node c"
  by (induction es rule: valid_entries.induct) (auto simp: valid_node_def)

lemma valid_lookup:
  "valid_node nd \<Longrightarrow> fs_lookup segs nd = Inr nd' \<Longrightarrow> valid_node nd'"
proof (induction segs arbitrary: nd)
  case Nil
  then show ?case by simp
next
  case (Cons s ss)
  show ?case
  proof (cases nd)
    case File
    then show ?thesis using Cons.prems by simp
  next
    case (Dir entries)
    show ?thesis
    proof (cases "map_of entries s")
      case None
      then show ?thesis using Cons.prems Dir by simp
    next
      case (Some child)
      then have "(s, child) \<in> set entries" by (rule map_of_SomeD)
      then have "valid_node child" using Cons.prems(1) Dir valid_entries_child
        by (auto simp: valid_node_def)
      then show ?thesis using Cons.IH[of child] Cons.prems(2) Dir Some by simp
    qed
  qed
qed

lemma split_on_snoc_sep: "split_on c (s @ [c]) = split_on c s @ [[]]"
  using split_on_append[of c s "[]"] by simp

lemma split_join_names:
  "names \<noteq> [] \<Longrightarrow> list_all valid_name names \<Longrightarrow>
   split_on CHR ''/'' (join_with ''/'' names) = names"
proof (induction names)
  case Nil
  then show ?case by simp
next
  case (Cons n ns)
  show ?case
  proof (cases ns)
    case Nil
    then show ?thesis using Cons.prems by (simp add: split_on_notin valid_name_def)
  next
    case (Cons m ms)
    then have "join_with ''/'' (n # ns) = n @ CHR ''/'' # join_with ''/'' ns" by simp
    then show ?thesis using Cons.IH Cons.prems Cons
      by (simp add: split_on_append split_on_notin valid_name_def del: join_with.simps)
  qed
qed

lemma path_segments_names:
  assumes "names \<noteq> []" "list_all valid_name names"
  shows "path_segments (join_with ''/'' names) = names"
    and "path_segments (join_with ''/'' names @ ''/'') = names"
proof -
  have f: "filter (\<lambda>s. s \<noteq> []) names = names"
    using assms(2) by (auto simp: list_all_iff valid_name_def filter_id_conv)
  show "path_segments (join_with ''/'' names) = names"
    using f by (simp add: path_segments_def split_join_names[OF assms])
  show "path_segments (join_with ''/'' names @ ''/'') = names"
    using f by (simp add: path_segments_def split_on_snoc_sep split_join_names[OF assms])
qed

lemma join_names_clean: "names \<noteq> [] \<Longrightarrow> list_all valid_name names \<Longrightarrow> clean_rel (join_with ''/'' names)"
  by (simp add: clean_rel_def split_join_names)

lemma strip_listed:
  assumes "names \<noteq> []" "list_all valid_name names"
    and "r = pre @ join_with ''/'' names \<or> r = pre @ join_with ''/'' names @ ''/''"
  shows "without_trailing_slash r = pre @ join_with ''/'' names"
proof -
  let ?J = "join_with ''/'' names"
  have c: "clean_rel ?J" using assms(1,2) by (rule join_names_clean)
  then have ne: "?J \<noteq> []" and l: "last ?J \<noteq> CHR ''/''"
    by (simp_all add: clean_rel_nonempty clean_rel_last)
  then have a: "\<not> endsWith (pre @ ?J) ''/''" by (simp add: endsWith_slash)
  have b: "endsWith (pre @ ?J @ ''/'') ''/''" by (simp add: endsWith_slash)
  have "butlast (pre @ ?J @ ''/'') = pre @ ?J" by (simp add: butlast_append)
  then show ?thesis using assms(3) a b by (auto simp: without_trailing_slash_def)
qed

lemma array_from_walk:
  assumes "list_files_array processCwd root params fs = Inr files"
  obtains entries where
    "fs_stat fs (path_resolve processCwd root (relativePath params)) = Inr (Dir entries)"
    "files = sort (walk (recursive params \<noteq> JBool False)
                (case ignore params of None \<Rightarrow> default_ignore | Some xs \<Rightarrow> xs) entries
                (if relativePath params = ''.'' then [] else relativePath params))"
  using assms
  by (auto simp: list_files_array_def Let_def split: if_splits sum.splits node.splits)

lemma start_prefix_clean: "clean_rel p \<Longrightarrow> start_prefix p = p @ ''/''"
  using entry_prefix_clean[of p] by (auto simp: start_prefix_def clean_rel_def valid_name_def)

lemma matches_single_hasSlash:
  assumes "hasSlash q"
  shows "matchesPattern t bn [q] \<longleftrightarrow> regex_test (globToRegex q) t = Some True"
  using assms by (simp add: matchesPattern_def pattern_matches_def join_split hasSlash_def)

lemma array_listing:
  assumes fs: "valid_node fs" and res: "list_files_array processCwd root params fs = Inr files"
  obtains entries where
    "fs_stat fs (path_resolve processCwd root (relativePath params)) = Inr (Dir entries)"
    "valid_entries entries"
    "files = sort (root_relative_listing (recursive params \<noteq> JBool False)
                (case ignore params of None \<Rightarrow> default_ignore | Some xs \<Rightarrow> xs) entries
                (start_prefix (relativePath params)))"
proof -
  from res obtain entries where
    st: "fs_stat fs (path_resolve processCwd root (relativePath params)) = Inr (Dir entries)"
    and files: "files = sort (walk (recursive params \<noteq> JBool False)
                (case ignore params of None \<Rightarrow> default_ignore | Some xs \<Rightarrow> xs) entries
                (if relativePath params = ''.'' then [] else relativePath params))"
    by (rule array_from_walk)
  have ve: "valid_entries entries"
    using valid_lookup[OF fs st[unfolded fs_stat_def]] by (simp add: valid_node_def)
  show ?thesis
    using that[OF st ve] files unfolding walk_listing[OF ve] start_prefix_def by simp
qed

section \<open>The argument vector\<close>

lemma read_flag: "\<not> takes_value a \<Longrightarrow> read_options (a # rest) = (a, None) # read_options rest"
  by (cases rest) simp_all

lemma read_value: "takes_value a \<Longrightarrow> read_options (a # v # rest) = (a, Some v) # read_options rest"
  by simp

lemma read_includes:
  "read_options (concat (map (\<lambda>inc. [''--include'', inc]) incs) @ rest)
     = map (\<lambda>inc. (''--include'', Some inc)) incs @ read_options rest"
  by (induction incs) (simp_all add: takes_value_def)

lemma read_excludes:
  "read_options (concat (map (\<lambda>exc. [''--exclude'', exc, ''--exclude-dir'', exc]) excs) @ rest)
     = concat (map (\<lambda>exc. [(''--exclude'', Some exc), (''--exclude-dir'', Some exc)]) excs)
       @ read_options rest"
  by (induction excs) (simp_all add: takes_value_def)

lemma grepArgs_case_flag:
  "take 2 (grepArgs params)
     = (if caseSensitive params = JBool True then [''-rIn'', ''-E''] else [''-rIn'', ''-i''])"
  by (simp add: grepArgs_def)

section \<open>Enumeration order\<close>

lemma walk_append:
  "walk rec ign (es @ es') cur = walk rec ign es cur @ walk rec ign es' cur"
  by (induction rec ign es cur rule: walk.induct) (simp_all add: Let_def)

lemma walk_Cons:
  "walk rec ign (e # es) cur = walk rec ign [e] cur @ walk rec ign es cur"
  using walk_append[of rec ign "[e]" es cur] by simp

lemma mset_walk:
  "mset (walk rec ign es cur) = (\<Sum>e \<in># mset es. mset (walk rec ign [e] cur))"
proof (induction es)
  case Nil
  show ?case by simp
next
  case (Cons e es)
  have "mset (walk rec ign (e # es) cur)
        = mset (walk rec ign [e] cur) + mset (walk rec ign es cur)"
    by (subst walk_Cons) simp
  also have "\<dots> = mset (walk rec ign [e] cur) + (\<Sum>e \<in># mset es. mset (walk rec ign [e] cur))"
    by (simp only: Cons.IH)
  also have "\<dots> = (\<Sum>e \<in># mset (e # es). mset (walk rec ign [e] cur))"
    by simp
  finally show ?case .
qed

lemma mset_walk_perm:
  assumes "mset es = mset es'"
  shows "mset (walk rec ign es cur) = mset (walk rec ign es' cur)"
proof -
  have "mset (walk rec ign es cur) = (\<Sum>e \<in># mset es. mset (walk rec ign [e] cur))"
    by (rule mset_walk)
  also have "\<dots> = (\<Sum>e \<in># mset es'. mset (walk rec ign [e] cur))"
    by (simp only: assms)
  also have "\<dots> = mset (walk rec ign es' cur)"
    by (rule mset_walk[symmetric])
  finally show ?thesis .
qed

lemma all2_walk:
  assumes "list_all2 (\<lambda>a b. fst a = fst b \<and>
             (\<forall>rec ign cur. mset (walk rec ign [(fst a, snd a)] cur)
                           = mset (walk rec ign [(fst b, snd b)] cur))) es es'"
  shows "mset (walk rec ign es c) = mset (walk rec ign es' c)"
  using assms
proof (induction es es' rule: list_all2_induct)
  case Nil
  show ?case by simp
next
  case (Cons a as b bs)
  have h: "mset (walk rec ign [a] c) = mset (walk rec ign [b] c)"
    using Cons(1) by (cases a; cases b) simp
  show ?case
    by (subst walk_Cons, subst (2) walk_Cons) (simp add: h Cons(3))
qed

lemma walk_single_Dir:
  "walk rec ign [(n, Dir es)] cur =
     (if matchesPattern (path_join cur n) n ign then []
      else if rec then walk rec ign es (path_join cur n)
      else [path_join cur n @ ''/''])"
  by (simp add: Let_def)

lemma reorder_walk:
  "reorder t t' \<Longrightarrow> mset (walk rec ign [(n, t)] cur) = mset (walk rec ign [(n, t')] cur)"
proof (induction arbitrary: rec ign n cur rule: reorder.induct)
  case reorder_File
  show ?case by simp
next
  case (reorder_Dir es es' es'')
  have "list_all2 (\<lambda>a b. fst a = fst b \<and>
             (\<forall>rec ign cur. mset (walk rec ign [(fst a, snd a)] cur)
                           = mset (walk rec ign [(fst b, snd b)] cur))) es es'"
    using reorder_Dir(1) by (rule list_all2_mono) auto
  then have "mset (walk rec ign es c) = mset (walk rec ign es' c)" for c
    by (rule all2_walk)
  then have "mset (walk rec ign es c) = mset (walk rec ign es'' c)" for c
    using mset_walk_perm[OF reorder_Dir(2), of rec ign c] by (rule trans)
  then show ?case by (cases rec) (simp_all add: walk_single_Dir del: walk.simps)
qed

lemma reorder_entries_walk:
  assumes "reorder (Dir es) (Dir es'')"
  shows "mset (walk rec ign es cur) = mset (walk rec ign es'' cur)"
proof -
  from assms obtain es' where
    a: "list_all2 (\<lambda>a b. fst a = fst b \<and> reorder (snd a) (snd b)) es es'"
    and p: "mset es' = mset es''"
    by (cases rule: reorder.cases) auto
  have "list_all2 (\<lambda>a b. fst a = fst b \<and>
             (\<forall>rec ign cur. mset (walk rec ign [(fst a, snd a)] cur)
                           = mset (walk rec ign [(fst b, snd b)] cur))) es es'"
    using a by (rule list_all2_mono) (auto simp: reorder_walk)
  then have "mset (walk rec ign es cur) = mset (walk rec ign es' cur)"
    by (rule all2_walk)
  then show ?thesis using mset_walk_perm[OF p, of rec ign cur] by (rule trans)
qed

lemma sort_cong_mset: "mset xs = mset ys \<Longrightarrow> sort xs = sort (ys :: string list)"
  by (metis mset_sort properties_for_sort sorted_sort)

lemma distinct_entries_keys: "distinct_entries es \<Longrightarrow> distinct (map fst es)"
  by (induction es rule: distinct_entries.induct) auto

lemma distinct_entries_child:
  "distinct_entries es \<Longrightarrow> (n, c) \<in> set es \<Longrightarrow> distinct_node c"
  by (induction es rule: distinct_entries.induct) (auto simp: distinct_node_def)

lemma all2_map_of:
  assumes "list_all2 (\<lambda>a b. fst a = fst b \<and> R (snd a) (snd b)) es es'"
  shows "(map_of es s = None \<longrightarrow> map_of es' s = None)
       \<and> (\<forall>c. map_of es s = Some c \<longrightarrow> (\<exists>c'. map_of es' s = Some c' \<and> R c c'))"
  using assms
proof (induction es es' rule: list_all2_induct)
  case Nil
  show ?case by simp
next
  case (Cons a as b bs)
  then show ?case by (cases a; cases b) auto
qed

lemma all2_keys:
  "list_all2 (\<lambda>a b. fst a = fst b \<and> R (snd a) (snd b)) es es' \<Longrightarrow> map fst es = map fst es'"
  by (induction es es' rule: list_all2_induct) auto

lemma perm_map_of:
  assumes "mset es' = mset es''" "distinct (map fst es')"
  shows "map_of es' = map_of (es'' :: (string \<times> node) list)"
proof -
  have "mset (map fst es') = mset (map fst es'')" using assms(1) by (metis mset_map)
  then have d: "distinct (map fst es'')" using assms(2) by (metis mset_eq_imp_distinct_iff)
  have "set es' = set es''" using assms(1) by (rule mset_eq_setD)
  then show ?thesis using assms(2) d by (simp add: map_of_inject_set)
qed

lemma reorder_lookup:
  assumes "reorder t t'" "distinct_node t"
  shows "(\<forall>e. fs_lookup segs t = Inl e \<longrightarrow> fs_lookup segs t' = Inl e)
       \<and> (\<forall>n. fs_lookup segs t = Inr n \<longrightarrow> (\<exists>n'. fs_lookup segs t' = Inr n' \<and> reorder n n'))"
  using assms
proof (induction segs arbitrary: t t')
  case Nil
  then show ?case by simp
next
  case (Cons s ss)
  from Cons.prems(1) show ?case
  proof (cases rule: reorder.cases)
    case reorder_File
    then show ?thesis by simp
  next
    case (reorder_Dir es es' es'')
    have de: "distinct_entries es" using Cons.prems(2) reorder_Dir(1) by (simp add: distinct_node_def)
    have keys: "map fst es = map fst es'" using reorder_Dir(3) by (rule all2_keys)
    have "distinct (map fst es')" using distinct_entries_keys[OF de] keys by simp
    then have pm: "map_of es' = map_of es''" using reorder_Dir(4) perm_map_of by blast
    note m = all2_map_of[OF reorder_Dir(3), of s]
    show ?thesis
    proof (cases "map_of es s")
      case None
      then have "map_of es'' s = None" using m pm by simp
      then show ?thesis using None reorder_Dir(1,2) by simp
    next
      case (Some c)
      then obtain c' where c': "map_of es'' s = Some c'" and r: "reorder c c'"
        using m pm by auto
      have "(s, c) \<in> set es" using Some by (rule map_of_SomeD)
      then have "distinct_node c" using de distinct_entries_child by blast
      from Cons.IH[OF r this] show ?thesis using Some c' reorder_Dir(1,2) by simp
    qed
  qed
qed

lemma reorder_array:
  assumes "reorder fs fs'" "distinct_node fs"
  shows "list_files_array processCwd root params fs = list_files_array processCwd root params fs'"
proof -
  let ?t = "path_resolve processCwd root (relativePath params)"
  let ?segs = "filter (\<lambda>s. s \<noteq> []) (split_on CHR ''/'' ?t)"
  note l = reorder_lookup[OF assms, of ?segs]
  show ?thesis
  proof (cases "fs_lookup ?segs fs")
    case (Inl e)
    then have "fs_lookup ?segs fs' = Inl e" using l by simp
    then show ?thesis using Inl by (simp add: list_files_array_def fs_stat_def Let_def)
  next
    case (Inr n)
    then obtain n' where n': "fs_lookup ?segs fs' = Inr n'" and r: "reorder n n'"
      using l by auto
    from r show ?thesis
    proof (cases rule: reorder.cases)
      case reorder_File
      then show ?thesis using Inr n' by (simp add: list_files_array_def fs_stat_def Let_def)
    next
      case (reorder_Dir es es' es'')
      have "reorder (Dir es) (Dir es'')" using r reorder_Dir(1,2) by simp
      then have "sort (walk rc ign es cur) = sort (walk rc ign es'' cur)" for rc ign cur
        by (intro sort_cong_mset reorder_entries_walk)
      then show ?thesis using Inr n' reorder_Dir(1,2)
        by (simp add: list_files_array_def fs_stat_def Let_def)
    qed
  qed
qed

lemma reorder_example: "reorder order_a order_b"
proof -
  have d: "reorder (Dir [(''y'', File), (''x'', File)]) (Dir [(''x'', File), (''y'', File)])"
    by (rule reorder_Dir[where es' = "[(''y'', File), (''x'', File)]"])
       (simp_all add: reorder_File)
  have w: "reorder (Dir [(''b.txt'', File), (''d'', Dir [(''y'', File), (''x'', File)]), (''a.txt'', File)])
                   (Dir [(''a.txt'', File), (''b.txt'', File), (''d'', Dir [(''x'', File), (''y'', File)])])"
    by (rule reorder_Dir[where es' = "[(''b.txt'', File), (''d'', Dir [(''x'', File), (''y'', File)]), (''a.txt'', File)]"])
       (simp_all add: reorder_File d)
  show ?thesis unfolding order_a_def order_b_def
    by (rule reorder_Dir[where es' = "[(''ws'', Dir [(''a.txt'', File), (''b.txt'', File), (''d'', Dir [(''x'', File), (''y'', File)])])]"])
       (simp_all add: w)
qed

section \<open>Entries resolved against the root\<close>

lemma normalize_segs_valids:
  "list_all valid_name ns \<Longrightarrow> normalize_segs a R ns = R @ ns"
  by (induction ns arbitrary: R) (simp_all add: valid_name_def)

lemma normalize_segs_snoc:
  "normalize_segs a R (M @ [x]) = normalize_segs a (normalize_segs a R M) [x]"
  by (rule normalize_segs_append)

lemma normalize_segs_Cons:
  "normalize_segs a R (x # xs) = normalize_segs a (normalize_segs a R [x]) xs"
  using normalize_segs_append[of a R "[x]" xs] by simp

lemma normalize_twice:
  assumes "\<forall>m \<in> set M. m \<noteq> [] \<and> m \<noteq> ''.''"
  shows "normalize_segs False R (normalize_segs True M xs)
         = normalize_segs False (normalize_segs False R M) xs"
  using assms
proof (induction xs arbitrary: M)
  case Nil
  show ?case by simp
next
  case (Cons s ss)
  note inv = Cons.prems
  show ?case
  proof (cases "s = [] \<or> s = ''.''")
    case True
    then show ?thesis using Cons.IH[OF inv] by auto
  next
    case ns: False
    show ?thesis
    proof (cases "s = ''..'' \<and> M \<noteq> [] \<and> last M \<noteq> ''..''")
      case True
      then have M: "M = butlast M @ [last M]" by simp
      have lm: "last M \<in> set M" using True by simp
      then have l: "last M \<noteq> []" "last M \<noteq> ''.''" "last M \<noteq> ''..''"
        using inv True by auto
      let ?X = "normalize_segs False R (butlast M)"
      have inv': "\<forall>m \<in> set (butlast M). m \<noteq> [] \<and> m \<noteq> ''.''"
        using inv by (auto dest: in_set_butlastD)
      have "normalize_segs False R M = normalize_segs False ?X [last M]"
        using normalize_segs_snoc[of False R "butlast M" "last M"] M by simp
      also have "\<dots> = ?X @ [last M]" using l by simp
      finally have a: "normalize_segs False R M = ?X @ [last M]" .
      have "normalize_segs False (?X @ [last M]) (s # ss) = normalize_segs False ?X ss"
        using True l by simp
      moreover have "normalize_segs True M (s # ss) = normalize_segs True (butlast M) ss"
        using True by simp
      ultimately show ?thesis using Cons.IH[OF inv'] a by simp
    next
      case False
      then have st: "normalize_segs True M (s # ss) = normalize_segs True (M @ [s]) ss"
        using ns by auto
      have inv': "\<forall>m \<in> set (M @ [s]). m \<noteq> [] \<and> m \<noteq> ''.''" using inv ns by auto
      have "normalize_segs False (normalize_segs False R (M @ [s])) ss
            = normalize_segs False (normalize_segs False R M) (s # ss)"
        unfolding normalize_segs_snoc[of False R M s]
        by (rule normalize_segs_Cons[symmetric])
      then show ?thesis using Cons.IH[OF inv'] st by simp
    qed
  qed
qed

lemma nf_valid: "nf_segs False N \<Longrightarrow> list_all valid_name N"
  by (auto simp: nf_segs_def)

lemma stat_segments:
  assumes "nf_segs False N"
  shows "filter (\<lambda>s. s \<noteq> []) (split_on CHR ''/'' (CHR ''/'' # join_with ''/'' N)) = N"
proof (cases "N = []")
  case True
  then show ?thesis by simp
next
  case False
  have m: "\<forall>s \<in> set N. s \<noteq> [] \<and> CHR ''/'' \<notin> set s" using nf_mem[OF assms] by blast
  then have sj: "split_on CHR ''/'' (join_with ''/'' N) = N"
    using False by (intro split_join_segs) auto
  have "split_on CHR ''/'' (CHR ''/'' # join_with ''/'' N) = [] # N"
    using split_on_append[of "CHR ''/''" "[]" "join_with ''/'' N"] sj by simp
  then show ?thesis using m by (simp add: filter_id_conv)
qed

lemma nf_normalize: "nf_segs False (normalize_segs False [] (split_on CHR ''/'' p))"
  by (rule nf_out) (auto simp: nf_segs_Nil dest: split_on_mem_notin)

lemma nf_normalize2:
  "nf_segs False (normalize_segs False (normalize_segs False [] (split_on CHR ''/'' p))
      (split_on CHR ''/'' q))"
  by (rule nf_out) (auto simp: nf_normalize dest: split_on_mem_notin)

lemma stat_resolve:
  assumes pc: "pc \<noteq> []" "hd pc = CHR ''/''"
  shows "fs_stat fs (path_resolve pc a b)
         = fs_lookup (normalize_segs False
             (if b \<noteq> [] \<and> hd b = CHR ''/'' then []
              else normalize_segs False [] (split_on CHR ''/''
                     (if a = [] then pc else if hd a = CHR ''/'' then a else pc @ ''/'' @ a)))
             (split_on CHR ''/'' b)) fs"
proof -
  let ?Y = "if a = [] then pc else if hd a = CHR ''/'' then a else pc @ ''/'' @ a"
  let ?R = "normalize_segs False [] (split_on CHR ''/'' ?Y)"
  let ?st = "resolve_step pc (resolve_step a (resolve_step b ([], False)))"
  have tr: "normalize_segs False R (split_on CHR ''/'' (b @ ''/'')) = normalize_segs False R (split_on CHR ''/'' b)" for R
    using split_on_append[of "CHR ''/''" b "[]"] by (simp add: normalize_segs_append)
  have st: "snd ?st \<and> normalize_segs False [] (split_on CHR ''/'' (fst ?st))
              = normalize_segs False (if b \<noteq> [] \<and> hd b = CHR ''/'' then [] else ?R)
                  (split_on CHR ''/'' b)"
  proof (cases "b \<noteq> [] \<and> hd b = CHR ''/''")
    case True
    then show ?thesis using tr[of "[]"] by (simp add: resolve_step_def)
  next
    case False
    show ?thesis
    proof (cases "b = []")
      case True
      have "fst ?st = ?Y @ ''/''" "snd ?st"
        using True pc by (auto simp: resolve_step_def)
      moreover have "normalize_segs False [] (split_on CHR ''/'' (?Y @ ''/''))
          = normalize_segs False ?R (split_on CHR ''/'' b)"
        using split_on_append[of "CHR ''/''" ?Y "[]"] True
        by (simp add: normalize_segs_append)
      ultimately show ?thesis using True by simp
    next
      case b: False
      then have hb: "hd b \<noteq> CHR ''/''" using False by simp
      have "fst ?st = ?Y @ ''/'' @ b @ ''/''" "snd ?st"
        using hb b pc by (auto simp: resolve_step_def)
      moreover have "normalize_segs False [] (split_on CHR ''/'' (?Y @ ''/'' @ b @ ''/''))
          = normalize_segs False ?R (split_on CHR ''/'' b)"
        using split_on_append[of "CHR ''/''" ?Y "b @ ''/''"] tr[of ?R]
        by (simp add: normalize_segs_append)
      ultimately show ?thesis using hb by simp
    qed
  qed
  let ?N = "normalize_segs False (if b \<noteq> [] \<and> hd b = CHR ''/'' then [] else ?R)
              (split_on CHR ''/'' b)"
  have nf: "nf_segs False ?N"
    using nf_normalize[of b] nf_normalize2[of ?Y b]
    by (cases "b \<noteq> [] \<and> hd b = CHR ''/''") simp_all
  have "path_resolve pc a b = CHR ''/'' # join_with ''/'' ?N"
    using st by (simp add: path_resolve_def Let_def normalizeString_def)
  then show ?thesis using stat_segments[OF nf] by (simp add: fs_stat_def)
qed


lemma join_with_append:
  "xs \<noteq> [] \<Longrightarrow> ys \<noteq> [] \<Longrightarrow> join_with sep (xs @ ys) = join_with sep xs @ sep @ join_with sep ys"
proof (induction sep xs rule: join_with.induct)
  case (1 sep)
  then show ?case by simp
next
  case (2 sep x)
  then show ?case by (cases ys) simp_all
next
  case (3 sep x y zs)
  then show ?case by simp
qed

lemma entry_resolved:
  assumes names: "names \<noteq> []" "list_all valid_name names"
    and r: "r = start_prefix p @ join_with ''/'' names
            \<or> r = start_prefix p @ join_with ''/'' names @ ''/''"
    and Rb: "p \<noteq> [] \<and> hd p = CHR ''/'' \<longrightarrow> Rb = []"
  shows "(r \<noteq> [] \<and> hd r = CHR ''/'') = (p \<noteq> [] \<and> hd p = CHR ''/'')"
    and "normalize_segs False Rb (split_on CHR ''/'' r)
         = normalize_segs False Rb (split_on CHR ''/'' p) @ names"
proof -
  let ?c = "if p = ''.'' then [] else p"
  let ?ab = "p \<noteq> [] \<and> hd p = CHR ''/''"
  let ?N = "normalize_segs (\<not> ?ab) [] (split_on CHR ''/'' ?c)"
  let ?S = "?N @ names"
  let ?J = "join_with ''/'' ?S"
  have ab: "(?c \<noteq> [] \<and> hd ?c = CHR ''/'') = ?ab" by auto
  have nf: "nf_segs (\<not> ?ab) ?N"
    by (rule nf_out) (auto simp: nf_segs_Nil dest: split_on_mem_notin)
  have mem: "\<forall>s \<in> set ?S. s \<noteq> [] \<and> CHR ''/'' \<notin> set s"
  proof
    fix s assume "s \<in> set ?S"
    then have "s \<in> set ?N \<or> s \<in> set names" by simp
    then show "s \<noteq> [] \<and> CHR ''/'' \<notin> set s"
    proof
      assume "s \<in> set ?N"
      with nf show ?thesis by (rule nf_mem)
    next
      assume "s \<in> set names"
      then have "valid_name s" using names(2) by (simp add: list_all_iff)
      then show ?thesis by (simp add: valid_name_def)
    qed
  qed
  have Sne: "?S \<noteq> []" using names(1) by simp
  have sp: "start_prefix p = (if ?ab then ''/'' else []) @ (if ?N = [] then [] else join_with ''/'' ?N @ ''/'')"
    unfolding start_prefix_def entry_prefix_def Let_def ab ..
  have j: "(if ?N = [] then [] else join_with ''/'' ?N @ ''/'') @ join_with ''/'' names = ?J"
    using names(1) by (simp add: join_with_append)
  have r': "r = (if ?ab then ''/'' else []) @ ?J \<or> r = (if ?ab then ''/'' else []) @ ?J @ ''/''"
    using r j unfolding sp by auto
  have "hd ?S \<in> set ?S" using Sne by (rule hd_in_set)
  with mem have hS: "hd ?S \<noteq> []" "CHR ''/'' \<notin> set (hd ?S)" by blast+
  have hj: "?J \<noteq> []" "hd ?J = hd (hd ?S)" using hd_join[OF Sne hS(1), of "''/''"] by simp_all
  have "hd (hd ?S) \<in> set (hd ?S)" using hS(1) by simp
  then have hj': "hd ?J \<noteq> CHR ''/''" using hj(2) hS(2) by auto
  show "(r \<noteq> [] \<and> hd r = CHR ''/'') = ?ab" using r' hj(1) hj' by (cases ?ab) auto
  have sj: "split_on CHR ''/'' ?J = ?S" using mem Sne by (intro split_join_segs) auto
  have sj': "split_on CHR ''/'' (?J @ ''/'') = ?S @ [[]]"
    using split_on_append[of "CHR ''/''" ?J "[]"] sj by simp
  have fr: "split_on CHR ''/'' (CHR ''/'' # x) = [] # split_on CHR ''/'' x" for x
    by simp
  have "normalize_segs False Rb (split_on CHR ''/'' r) = normalize_segs False Rb ?S"
    using r' sj sj' by (cases ?ab) (auto simp: normalize_segs_append)
  also have "\<dots> = normalize_segs False (normalize_segs False Rb ?N) names"
    by (rule normalize_segs_append)
  also have "\<dots> = normalize_segs False Rb ?N @ names"
    using names(2) by (rule normalize_segs_valids)
  also have "normalize_segs False Rb ?N = normalize_segs False Rb (split_on CHR ''/'' p)"
  proof (cases ?ab)
    case True
    then have "p \<noteq> ''.''" by auto
    then show ?thesis using True Rb nf_idem[OF nf] by simp
  next
    case False
    have "normalize_segs False Rb ?N = normalize_segs False Rb (split_on CHR ''/'' ?c)"
      using False normalize_twice[of "[]" Rb "split_on CHR ''/'' ?c"] by simp
    also have "\<dots> = normalize_segs False Rb (split_on CHR ''/'' p)"
      by (cases "p = ''.''") simp_all
    finally show ?thesis .
  qed
  finally show "normalize_segs False Rb (split_on CHR ''/'' r)
         = normalize_segs False Rb (split_on CHR ''/'' p) @ names" .
qed

lemma lookup_append:
  "fs_lookup xs nd = Inr nd' \<Longrightarrow> fs_lookup (xs @ ys) nd = fs_lookup ys nd'"
  by (induction xs arbitrary: nd) (auto split: node.splits option.splits)

lemma stat_entry:
  assumes pc: "pc \<noteq> []" "hd pc = CHR ''/''"
    and names: "names \<noteq> []" "list_all valid_name names"
    and r: "r = start_prefix p @ join_with ''/'' names
            \<or> r = start_prefix p @ join_with ''/'' names @ ''/''"
    and st: "fs_stat fs (path_resolve pc a p) = Inr nd"
  shows "fs_stat fs (path_resolve pc a r) = fs_lookup names nd"
proof -
  let ?R = "normalize_segs False [] (split_on CHR ''/''
                     (if a = [] then pc else if hd a = CHR ''/'' then a else pc @ ''/'' @ a))"
  let ?Rb = "if p \<noteq> [] \<and> hd p = CHR ''/'' then [] else ?R"
  have Rb: "p \<noteq> [] \<and> hd p = CHR ''/'' \<longrightarrow> ?Rb = []" by simp
  note e = entry_resolved[OF names r Rb]
  have "fs_stat fs (path_resolve pc a r)
        = fs_lookup (normalize_segs False ?Rb (split_on CHR ''/'' r)) fs"
    unfolding stat_resolve[OF pc] e(1) ..
  also have "\<dots> = fs_lookup (normalize_segs False ?Rb (split_on CHR ''/'' p) @ names) fs"
    unfolding e(2) ..
  also have "\<dots> = fs_lookup names nd"
    using st unfolding stat_resolve[OF pc] by (rule lookup_append)
  finally show ?thesis .
qed

lemma lookup_other_head:
  assumes "name \<notin> set (map fst entries)" "names \<noteq> []"
    "fs_lookup names (Dir entries) = Inr nd"
  shows "fs_lookup names (Dir ((name, x) # entries)) = Inr nd"
proof -
  from assms(2) obtain n ns where n: "names = n # ns" by (cases names) auto
  from assms(3) obtain child where c: "map_of entries n = Some child"
    unfolding n by (auto split: option.splits)
  then have "n \<in> set (map fst entries)" by (metis map_of_eq_None_iff option.distinct(1) set_map)
  then have "n \<noteq> name" using assms(1) by auto
  then show ?thesis using assms(3) unfolding n by simp
qed

lemma listing_lookup:
  assumes "valid_entries es" "distinct_entries es"
    "r \<in> set (root_relative_listing rec ign es pre)"
  shows "\<exists>names nd. names \<noteq> [] \<and> list_all valid_name names
           \<and> (r = pre @ join_with ''/'' names \<or> r = pre @ join_with ''/'' names @ ''/'')
           \<and> fs_lookup names (Dir es) = Inr nd"
  using assms
proof (induction rec ign es pre arbitrary: r rule: root_relative_listing.induct)
  case (1 rec ign pre)
  then show ?case by simp
next
  case (2 rec ign name entries pre)
  from "2.prems"(1) have vn: "valid_name name" and ve: "valid_entries entries" by simp_all
  from "2.prems"(2) have dn: "name \<notin> set (map fst entries)" and de: "distinct_entries entries"
    by simp_all
  have rest: ?case if "r \<in> set (root_relative_listing rec ign entries pre)"
    and ih: "\<And>r. r \<in> set (root_relative_listing rec ign entries pre) \<Longrightarrow>
       \<exists>names nd. names \<noteq> [] \<and> list_all valid_name names
           \<and> (r = pre @ join_with ''/'' names \<or> r = pre @ join_with ''/'' names @ ''/'')
           \<and> fs_lookup names (Dir entries) = Inr nd"
  proof -
    from ih[OF that(1)] obtain names nd where n: "names \<noteq> []" "list_all valid_name names"
      "r = pre @ join_with ''/'' names \<or> r = pre @ join_with ''/'' names @ ''/''"
      "fs_lookup names (Dir entries) = Inr nd" by blast
    have "fs_lookup names (Dir ((name, File) # entries)) = Inr nd"
      using dn n(1,4) by (rule lookup_other_head)
    with n show ?thesis by blast
  qed
  show ?case
  proof (cases "matchesPattern (pre @ name) name ign")
    case True
    then have "r \<in> set (root_relative_listing rec ign entries pre)" using "2.prems"(3) by simp
    then show ?thesis using rest "2.IH"(1)[OF True ve de] by blast
  next
    case False
    then have "r = pre @ name \<or> r \<in> set (root_relative_listing rec ign entries pre)"
      using "2.prems"(3) by auto
    then show ?thesis
    proof
      assume r: "r = pre @ name"
      have "[name] \<noteq> [] \<and> list_all valid_name [name]
           \<and> (r = pre @ join_with ''/'' [name] \<or> r = pre @ join_with ''/'' [name] @ ''/'')
           \<and> fs_lookup [name] (Dir ((name, File) # entries)) = Inr File"
        using r vn by simp
      then show ?thesis by blast
    next
      assume "r \<in> set (root_relative_listing rec ign entries pre)"
      then show ?thesis using rest "2.IH"(2)[OF False ve de] by blast
    qed
  qed
next
  case (3 rec ign name children entries pre)
  from "3.prems"(1) have vn: "valid_name name" and vc: "valid_entries children"
    and ve: "valid_entries entries" by simp_all
  from "3.prems"(2) have dn: "name \<notin> set (map fst entries)" and dc: "distinct_entries children"
    and de: "distinct_entries entries"
    by simp_all
  have rest: ?case if "r \<in> set (root_relative_listing rec ign entries pre)"
    and ih: "\<And>r. r \<in> set (root_relative_listing rec ign entries pre) \<Longrightarrow>
       \<exists>names nd. names \<noteq> [] \<and> list_all valid_name names
           \<and> (r = pre @ join_with ''/'' names \<or> r = pre @ join_with ''/'' names @ ''/'')
           \<and> fs_lookup names (Dir entries) = Inr nd"
  proof -
    from ih[OF that(1)] obtain names nd where n: "names \<noteq> []" "list_all valid_name names"
      "r = pre @ join_with ''/'' names \<or> r = pre @ join_with ''/'' names @ ''/''"
      "fs_lookup names (Dir entries) = Inr nd" by blast
    have "fs_lookup names (Dir ((name, Dir children) # entries)) = Inr nd"
      using dn n(1,4) by (rule lookup_other_head)
    with n show ?thesis by blast
  qed
  have self: "[name] \<noteq> [] \<and> list_all valid_name [name]
           \<and> (r' = pre @ join_with ''/'' [name] \<or> r' = pre @ join_with ''/'' [name] @ ''/'')
           \<and> fs_lookup [name] (Dir ((name, Dir children) # entries)) = Inr (Dir children)"
    if "r' = pre @ name @ ''/''" for r'
    using that vn by simp
  show ?case
  proof (cases "matchesPattern (pre @ name) name ign")
    case True
    then have "r \<in> set (root_relative_listing rec ign entries pre)" using "3.prems"(3) by simp
    then show ?thesis using rest "3.IH"(1)[OF True ve de] by blast
  next
    case False
    show ?thesis
    proof (cases rec)
      case rec: True
      from "3.prems"(3) have "r \<in> set (root_relative_listing rec ign children (pre @ name @ ''/''))
                      \<or> r \<in> set (root_relative_listing rec ign entries pre)"
        using False rec by auto
      then show ?thesis
      proof
        assume "r \<in> set (root_relative_listing rec ign children (pre @ name @ ''/''))"
        from "3.IH"(2)[OF False rec vc dc this]
        obtain names nd where n: "names \<noteq> []" "list_all valid_name names"
           "r = (pre @ name @ ''/'') @ join_with ''/'' names
                \<or> r = (pre @ name @ ''/'') @ join_with ''/'' names @ ''/''"
           "fs_lookup names (Dir children) = Inr nd"
          by blast
        have j: "join_with ''/'' (name # names) = name @ ''/'' @ join_with ''/'' names"
          using n(1) by (rule join_with_Cons)
        have "name # names \<noteq> [] \<and> list_all valid_name (name # names)
           \<and> (r = pre @ join_with ''/'' (name # names)
                \<or> r = pre @ join_with ''/'' (name # names) @ ''/'')
           \<and> fs_lookup (name # names) (Dir ((name, Dir children) # entries)) = Inr nd"
          using n vn unfolding j by simp
        then show ?thesis by blast
      next
        assume "r \<in> set (root_relative_listing rec ign entries pre)"
        then show ?thesis using rest "3.IH"(3)[OF False rec ve de] by blast
      qed
    next
      case norec: False
      from "3.prems"(3) have "r = pre @ name @ ''/'' \<or> r \<in> set (root_relative_listing rec ign entries pre)"
        using False norec by auto
      then show ?thesis
      proof
        assume "r = pre @ name @ ''/''"
        from self[OF this] show ?thesis by blast
      next
        assume "r \<in> set (root_relative_listing rec ign entries pre)"
        then show ?thesis using rest "3.IH"(4)[OF False norec ve de] by blast
      qed
    qed
  qed
qed

lemma distinct_lookup:
  "distinct_node nd \<Longrightarrow> fs_lookup segs nd = Inr nd' \<Longrightarrow> distinct_node nd'"
proof (induction segs arbitrary: nd)
  case Nil
  then show ?case by simp
next
  case (Cons s ss)
  show ?case
  proof (cases nd)
    case File
    then show ?thesis using Cons.prems by simp
  next
    case (Dir entries)
    show ?thesis
    proof (cases "map_of entries s")
      case None
      then show ?thesis using Cons.prems Dir by simp
    next
      case (Some child)
      then have "(s, child) \<in> set entries" by (rule map_of_SomeD)
      then have "distinct_node child" using Cons.prems(1) Dir distinct_entries_child
        by (auto simp: distinct_node_def)
      then show ?thesis using Cons.IH[of child] Cons.prems(2) Dir Some by simp
    qed
  qed
qed

lemma entries_resolve:
  assumes ve: "valid_entries entries" and de: "distinct_entries entries"
    and pc: "pc \<noteq> []" "hd pc = CHR ''/''"
    and st: "fs_stat fs (path_resolve pc a p) = Inr (Dir entries)"
    and r: "r \<in> set (root_relative_listing rec ign entries (start_prefix p))"
  shows "\<exists>s nd. r = start_prefix p @ s
           \<and> fs_lookup (path_segments s) (Dir entries) = Inr nd
           \<and> fs_stat fs (path_resolve pc a r) = Inr nd"
proof -
  from listing_lookup[OF ve de r] obtain names nd where
    n: "names \<noteq> []" "list_all valid_name names"
      "r = start_prefix p @ join_with ''/'' names
       \<or> r = start_prefix p @ join_with ''/'' names @ ''/''"
      "fs_lookup names (Dir entries) = Inr nd"
    by blast
  have s: "fs_stat fs (path_resolve pc a r) = Inr nd"
    using stat_entry[OF pc n(1,2,3) st] n(4) by simp
  from n(3) show ?thesis
  proof
    assume "r = start_prefix p @ join_with ''/'' names"
    then show ?thesis using s n(4) path_segments_names(1)[OF n(1,2)] by metis
  next
    assume "r = start_prefix p @ join_with ''/'' names @ ''/''"
    then show ?thesis using s n(4) path_segments_names(2)[OF n(1,2)] by metis
  qed
qed

section \<open>The claims\<close>

subsection \<open>C1: the containment guard\<close>

text \<open>
  C1. For every workspace root and every path argument whose resolution escapes the root,
  \<open>list_files\<close> and \<open>search\<close> raise an access-denied error before any file-system or
  process work. The guard compares strings: with the root \<^verbatim>\<open>/ws\<close>, the argument
  \<^verbatim>\<open>../ws-other\<close> resolves to \<^verbatim>\<open>/ws-other\<close>, which is not within the root and still
  starts with the root's text. Both tools go on: \<open>list_files\<close> lists the sibling
  directory and \<open>search\<close> starts the search process on it.
\<close>

theorem C1_sibling_of_root_passes_guard:
  "path_resolve ''/'' ''/ws'' ''../ws-other'' = ''/ws-other''
   \<and> \<not> within_root ''/ws'' ''/ws-other''
   \<and> startsWith ''/ws-other'' ''/ws''
   \<and> list_files ''/'' ''/ws'' (list_args (Some ''../ws-other'') None) example_fs
       = Inr ''../ws-other/secret.txt''
   \<and> search ''/'' ''/ws''
         \<lparr>path = Some ''../ws-other'', pattern = ''key'', include_patterns = None,
          exclude_patterns = None, caseSensitive = JUndefined\<rparr>
         (\<lambda>r. Resolved (last (exec_args r) @ '':1:key''))
       = Inr ''../ws-other:1:key''"
  by code_simp

subsection \<open>C2: the trailing-slash form and exact paths\<close>

text \<open>
  C2. With the ignore pattern \<^verbatim>\<open>X/\<close>, \<open>list_files\<close> returns neither \<^verbatim>\<open>X\<close> nor a path
  beneath it, while the pattern \<^verbatim>\<open>a/b\<close> excludes only the entry whose relative path is
  \<^verbatim>\<open>a/b\<close>. The second half holds on the tree below; the first does not: a pattern that
  ends with a slash is matched against the basename, which holds no slash, so it
  matches no entry and \<^verbatim>\<open>node_modules/foo.js\<close> is listed.
\<close>

theorem C2_trailing_slash_pattern_excludes_nothing:
  "\<not> matchesPattern ''node_modules'' ''node_modules'' [''node_modules/'']
   \<and> list_files_array ''/'' ''/ws'' (list_args None (Some [''node_modules/''])) example_fs
       = Inr [''README.md'', ''node_modules/foo.js'', ''src/index.ts'',
              ''src/nested_modules/nested.js'', ''src/utils.ts'', ''test/index.test.ts'']
   \<and> list_files_array ''/'' ''/ws'' (list_args None (Some [''a/b'']))
         (Dir [(''ws'', Dir [(''a'', Dir [(''b'', File), (''c'', File)]),
                             (''other'', Dir [(''a'', Dir [(''b'', File)])])])])
       = Inr [''a/c'', ''other/a/b'']"
  by code_simp

subsection \<open>C3: the double star\<close>

text \<open>
  C3. The compiler turns \<^verbatim>\<open>**\<close> into a fragment that matches any characters, separators
  included, so a candidate whose matched part spans a separator is matched. The pass
  that replaces \<^verbatim>\<open>*\<close> runs over the output of the pass that replaced \<^verbatim>\<open>**\<close>, so the
  fragment becomes one character followed by characters other than the separator:
  \<^verbatim>\<open>a/**/z\<close> matches \<^verbatim>\<open>a/bc/z\<close> and not \<^verbatim>\<open>a/b/c/z\<close>, which \<open>list_files\<close> lists.
\<close>

theorem C3_double_star_stops_at_separator:
  "globToRegex ''a/**/z'' = ''^a/.[^/]*/z$''
   \<and> \<not> matchesPattern ''a/b/c/z'' ''z'' [''a/**/z'']
   \<and> matchesPattern ''a/bc/z'' ''z'' [''a/**/z'']
   \<and> list_files ''/'' ''/ws'' (list_args None (Some [''a/**/z'']))
         (Dir [(''ws'', Dir [(''a'', Dir [(''b'', Dir [(''c'', Dir [(''z'', File)])])])])])
       = Inr ''a/b/c/z''"
  by code_simp

subsection \<open>C4: ignored names\<close>

text \<open>
  C4, as amended. The claim says that with a slash-free ignore pattern \<^verbatim>\<open>X\<close> no returned
  path holds a segment named \<^verbatim>\<open>X\<close>. The patterns are tested on the entries the walk
  meets, not on the listing start, so the claim holds for the segments below the start,
  whatever the start is: on a tree of valid names, every returned path is the start's
  prefix followed by a part none of whose segments is named \<^verbatim>\<open>X\<close>, nor matched by
  \<^verbatim>\<open>X\<close> as a pattern. The directory entry named \<^verbatim>\<open>X\<close> is left out with all of its
  descendants. For the start \<^verbatim>\<open>.\<close> the prefix is empty, so no segment of a returned path
  is named \<^verbatim>\<open>X\<close>.
\<close>

theorem C4_ignored_name_below_start:
  assumes fs: "valid_node fs"
    and X: "X \<in> set (case ignore params of None \<Rightarrow> default_ignore | Some xs \<Rightarrow> xs)"
           "CHR ''/'' \<notin> set X"
    and res: "list_files_array processCwd root params fs = Inr files"
    and r: "r \<in> set files"
  shows "\<exists>s. r = start_prefix (relativePath params) @ s
             \<and> X \<notin> set (path_segments s)
             \<and> list_all (\<lambda>n. regex_test (globToRegex X) n \<noteq> Some True) (path_segments s)"
proof -
  let ?ign = "case ignore params of None \<Rightarrow> default_ignore | Some xs \<Rightarrow> xs"
  let ?pre = "start_prefix (relativePath params)"
  from fs res obtain entries where ve: "valid_entries entries"
    and files: "files = sort (root_relative_listing (recursive params \<noteq> JBool False) ?ign entries ?pre)"
    by (rule array_listing)
  from r files have "r \<in> set (root_relative_listing (recursive params \<noteq> JBool False) ?ign entries ?pre)"
    by simp
  from listing_shape[OF ve this] obtain names where
    n: "names \<noteq> []" "list_all valid_name names"
      "list_all (\<lambda>n. \<not> basename_ignored ?ign n) names"
      "r = ?pre @ join_with ''/'' names \<or> r = ?pre @ join_with ''/'' names @ ''/''"
    by blast
  have slashfree: "\<not> (CHR ''/'' \<in> set X \<and> \<not> endsWith X ''/'')" using X(2) by simp
  have a: "X \<notin> set names"
    using n(3) listed_name_ignored[OF X] by (auto simp: list_all_iff)
  have b: "list_all (\<lambda>n. regex_test (globToRegex X) n \<noteq> Some True) names"
    using n(3) X(1) slashfree by (auto simp: list_all_iff basename_ignored_def list_ex_iff)
  show ?thesis using n(4) a b path_segments_names[OF n(1,2)] by metis
qed

text \<open>
  The theorem on the test workspace with the pattern \<^verbatim>\<open>nested_modules\<close>, for the start
  \<^verbatim>\<open>.\<close> and for the start \<^verbatim>\<open>./src/\<close>, whose prefix is \<^verbatim>\<open>src/\<close>: the listing leaves out
  \<^verbatim>\<open>src/nested_modules/nested.js\<close>.
\<close>

theorem C4_ignored_name_below_start_witness:
  "valid_node example_fs
   \<and> list_files_array ''/'' ''/ws'' (list_args None (Some [''nested_modules''])) example_fs
       = Inr [''README.md'', ''node_modules/foo.js'', ''src/index.ts'', ''src/utils.ts'',
              ''test/index.test.ts'']
   \<and> (\<exists>s. ''src/utils.ts'' = start_prefix ''.'' @ s
            \<and> ''nested_modules'' \<notin> set (path_segments s)
            \<and> list_all (\<lambda>n. regex_test (globToRegex ''nested_modules'') n \<noteq> Some True)
                 (path_segments s))
   \<and> list_files_array ''/'' ''/ws'' (list_args (Some ''./src/'') (Some [''nested_modules'']))
       example_fs = Inr [''src/index.ts'', ''src/utils.ts'']
   \<and> start_prefix ''./src/'' = ''src/''
   \<and> (\<exists>s. ''src/utils.ts'' = start_prefix ''./src/'' @ s
            \<and> ''nested_modules'' \<notin> set (path_segments s)
            \<and> list_all (\<lambda>n. regex_test (globToRegex ''nested_modules'') n \<noteq> Some True)
                 (path_segments s))"
proof -
  have v: "valid_node example_fs" by code_simp
  have e: "list_files_array ''/'' ''/ws'' (list_args None (Some [''nested_modules''])) example_fs
       = Inr [''README.md'', ''node_modules/foo.js'', ''src/index.ts'', ''src/utils.ts'',
              ''test/index.test.ts'']"
    by code_simp
  have e2: "list_files_array ''/'' ''/ws'' (list_args (Some ''./src/'') (Some [''nested_modules'']))
       example_fs = Inr [''src/index.ts'', ''src/utils.ts'']"
    by code_simp
  have sp: "start_prefix ''./src/'' = ''src/''" by code_simp
  have p: "relativePath (list_args None (Some [''nested_modules''])) = ''.''"
    "relativePath (list_args (Some ''./src/'') (Some [''nested_modules''])) = ''./src/''"
    by (simp_all add: relativePath_def list_args_def)
  have x: "''nested_modules'' \<in> set (case ignore (list_args po (Some [''nested_modules''])) of
             None \<Rightarrow> default_ignore | Some xs \<Rightarrow> xs)" for po
    by (simp add: list_args_def)
  have a: "\<exists>s. ''src/utils.ts'' = start_prefix (relativePath (list_args None (Some [''nested_modules''])))  @ s
            \<and> ''nested_modules'' \<notin> set (path_segments s)
            \<and> list_all (\<lambda>n. regex_test (globToRegex ''nested_modules'') n \<noteq> Some True)
                 (path_segments s)"
    by (rule C4_ignored_name_below_start[OF v x _ e]) simp_all
  have b: "\<exists>s. ''src/utils.ts'' = start_prefix (relativePath (list_args (Some ''./src/'') (Some [''nested_modules''])))  @ s
            \<and> ''nested_modules'' \<notin> set (path_segments s)
            \<and> list_all (\<lambda>n. regex_test (globToRegex ''nested_modules'') n \<noteq> Some True)
                 (path_segments s)"
    by (rule C4_ignored_name_below_start[OF v x _ e2]) simp_all
  show ?thesis using v e e2 sp a[unfolded p] b[unfolded p] by blast
qed

text \<open>
  The claim as stated fails when the listing starts inside a directory named \<^verbatim>\<open>X\<close>: every
  returned path then holds the segment \<^verbatim>\<open>X\<close>.
\<close>

theorem C4_start_below_ignored_name_counterexample:
  "list_files_array ''/'' ''/ws'' (list_args (Some ''node_modules'') (Some [''node_modules'']))
     example_fs = Inr [''node_modules/foo.js'']
   \<and> ''node_modules'' \<in> set (path_segments ''node_modules/foo.js'')"
  by code_simp

subsection \<open>C5: the outcome of the search process\<close>

text \<open>
  C5. When the path passes the guard and the search process fails, \<open>search\<close> looks at the
  exit code: 1 gives the text \<^verbatim>\<open>No matches found.\<close> and no error; 2 gives a caller-input
  error whose message includes the captured diagnostic output; anything else is passed
  on as it is.
\<close>

theorem C5_exit_code_classification:
  assumes guard: "startsWith (path_resolve processCwd root (relativePath params)) root"
    and run: "exec (grep_request root params) = Rejected err"
  shows "(code err = CodeNumber 1 \<longrightarrow>
            search processCwd root params exec = Inr ''No matches found.'')
       \<and> (code err = CodeNumber 2 \<longrightarrow>
            (\<exists>msg. search processCwd root params exec = Inl (ToolInputError msg)
                \<and> (\<forall>d. stderr err = Some d \<longrightarrow> includes_str msg d)))
       \<and> (code err \<noteq> CodeNumber 1 \<and> code err \<noteq> CodeNumber 2 \<longrightarrow>
            search processCwd root params exec = Inl (ExecError err))"
proof (intro conjI impI)
  assume "code err = CodeNumber 1"
  then show "search processCwd root params exec = Inr ''No matches found.''"
    using guard run by (simp add: search_def relativePath_def)
next
  assume c: "code err = CodeNumber 2"
  let ?d = "case stderr err of None \<Rightarrow> message err
            | Some d \<Rightarrow> if d \<noteq> [] then d else message err"
  have s: "search processCwd root params exec = Inl (ToolInputError (''Grep error: '' @ ?d))"
    using guard run c by (simp add: search_def relativePath_def)
  have "\<forall>d. stderr err = Some d \<longrightarrow> includes_str (''Grep error: '' @ ?d) d"
  proof (intro allI impI)
    fix d assume e: "stderr err = Some d"
    show "includes_str (''Grep error: '' @ ?d) d"
    proof (cases "d = []")
      case True
      then show ?thesis by (simp add: includes_str_Nil)
    next
      case False
      then show ?thesis using e includes_str_append[of "''Grep error: ''" d] by simp
    qed
  qed
  with s show "\<exists>msg. search processCwd root params exec = Inl (ToolInputError msg)
                \<and> (\<forall>d. stderr err = Some d \<longrightarrow> includes_str msg d)"
    by blast
next
  assume "code err \<noteq> CodeNumber 1 \<and> code err \<noteq> CodeNumber 2"
  then show "search processCwd root params exec = Inl (ExecError err)"
    using guard run by (simp add: search_def relativePath_def)
qed

text \<open>The three cases on the default parameters, with exit codes 1, 2 and 127.\<close>

theorem C5_exit_code_classification_witness:
  "search ''/'' ''/ws'' (search_args_ex ''hello'') (exit_with 1 []) = Inr ''No matches found.''
   \<and> (\<exists>msg. search ''/'' ''/ws'' (search_args_ex ''(('') (exit_with 2 ''grep: Invalid regular expression'')
              = Inl (ToolInputError msg)
          \<and> includes_str msg ''grep: Invalid regular expression'')
   \<and> search ''/'' ''/ws'' (search_args_ex ''hello'') (exit_with 127 [])
       = Inl (ExecError \<lparr>code = CodeNumber 127, stderr = Some [], message = ''Command failed: grep''\<rparr>)"
proof -
  have g: "startsWith (path_resolve ''/'' ''/ws'' (relativePath (search_args_ex q))) ''/ws''" for q
    by (simp add: search_args_ex_def relativePath_def) code_simp
  have r: "exit_with n d (grep_request ''/ws'' (search_args_ex q)) =
        Rejected \<lparr>code = CodeNumber n, stderr = Some d, message = ''Command failed: grep''\<rparr>" for n d q
    by (simp add: exit_with_def)
  show ?thesis
    using C5_exit_code_classification[where exec = "exit_with 1 []", OF g r]
      C5_exit_code_classification[where exec = "exit_with 2 ''grep: Invalid regular expression''",
        OF g r]
      C5_exit_code_classification[where exec = "exit_with 127 []", OF g r]
    by simp
qed

subsection \<open>C6: the ceiling on the output\<close>

text \<open>
  C6. \<open>list_files\<close> returns the text made from its sorted array, \<open>search\<close> the text made
  from the non-empty lines of the captured output. Past the ceiling (1000 entries, 500
  lines) the text is the first ceiling items, joined by newlines, then a note with the
  decimal count of the items left out; the ceiling plus the count read back from the note
  is the length of the sequence. At or under the ceiling the text is all items joined,
  with no note; an empty join is shown as the placeholder.
\<close>

theorem C6_output_ceiling:
  "(list_files_array processCwd root lparams fs = Inr files \<longrightarrow>
      list_files processCwd root lparams fs = Inr (list_files_text files))
   \<and> (startsWith (path_resolve processCwd root (relativePath sparams)) root
        \<and> exec (grep_request root sparams) = Resolved stdout \<longrightarrow>
      search processCwd root sparams exec
        = Inr (search_text (filter (\<lambda>l. l \<noteq> []) (split_on LF stdout))))
   \<and> (length files > 1000 \<longrightarrow>
      list_files_text files
        = join_with [LF] (take 1000 files) @ [LF, LF] @ ''... and ''
          @ show_nat (length files - 1000) @ '' more files.''
      \<and> length (take 1000 files) = 1000
      \<and> 1000 + read_nat (show_nat (length files - 1000)) = length files)
   \<and> (length files \<le> 1000 \<longrightarrow>
      list_files_text files
        = (if join_with [LF] files = [] then ''(empty directory)'' else join_with [LF] files))
   \<and> (length lines > 500 \<longrightarrow>
      search_text lines
        = join_with [LF] (take 500 lines) @ [LF, LF] @ ''... and ''
          @ show_nat (length lines - 500) @ '' more matches.''
      \<and> length (take 500 lines) = 500
      \<and> 500 + read_nat (show_nat (length lines - 500)) = length lines)
   \<and> (length lines \<le> 500 \<longrightarrow>
      search_text lines
        = (if join_with [LF] lines = [] then ''No matches found.'' else join_with [LF] lines))"
proof -
  have a: "list_files_array processCwd root lparams fs = Inr files \<longrightarrow>
      list_files processCwd root lparams fs = Inr (list_files_text files)"
    by (simp add: list_files_def)
  have b: "startsWith (path_resolve processCwd root (relativePath sparams)) root
        \<and> exec (grep_request root sparams) = Resolved stdout \<longrightarrow>
      search processCwd root sparams exec
        = Inr (search_text (filter (\<lambda>l. l \<noteq> []) (split_on LF stdout)))"
    by (simp add: search_def)
  have c: "(length xs > 1000 \<longrightarrow>
      list_files_text xs
        = join_with [LF] (take 1000 xs) @ [LF, LF] @ ''... and ''
          @ show_nat (length xs - 1000) @ '' more files.''
      \<and> length (take 1000 xs) = 1000
      \<and> 1000 + read_nat (show_nat (length xs - 1000)) = length xs)
   \<and> (length xs \<le> 1000 \<longrightarrow>
      list_files_text xs
        = (if join_with [LF] xs = [] then ''(empty directory)'' else join_with [LF] xs))" for xs
    by (simp add: list_files_text_def read_show_nat Let_def del: read_nat.simps)
  have d: "(length xs > 500 \<longrightarrow>
      search_text xs
        = join_with [LF] (take 500 xs) @ [LF, LF] @ ''... and ''
          @ show_nat (length xs - 500) @ '' more matches.''
      \<and> length (take 500 xs) = 500
      \<and> 500 + read_nat (show_nat (length xs - 500)) = length xs)
   \<and> (length xs \<le> 500 \<longrightarrow>
      search_text xs
        = (if join_with [LF] xs = [] then ''No matches found.'' else join_with [LF] xs))" for xs
    by (simp add: search_text_def read_show_nat Let_def del: read_nat.simps)
  show ?thesis using a b c[of files] d[of lines] by blast
qed

text \<open>
  The theorem on a listing and a search that pass through, on sequences one past each
  ceiling, and on short sequences.
\<close>

theorem C6_output_ceiling_witness:
  "list_files ''/'' ''/ws'' (list_args (Some ''src'') None) example_fs
     = Inr (list_files_text [''src/index.ts'', ''src/nested_modules/nested.js'', ''src/utils.ts''])
   \<and> search ''/'' ''/ws'' (search_args_ex ''hello'') (\<lambda>r. Resolved (''a:1:hello'' @ [LF]))
     = Inr (search_text [''a:1:hello''])
   \<and> list_files_text (replicate 1001 ''f'')
     = join_with [LF] (replicate 1000 ''f'') @ [LF, LF] @ ''... and 1 more files.''
   \<and> list_files_text [''a'', ''b''] = [CHR ''a'', LF, CHR ''b'']
   \<and> search_text (replicate 501 ''f:1:x'')
     = join_with [LF] (replicate 500 ''f:1:x'') @ [LF, LF] @ ''... and 1 more matches.''
   \<and> search_text [] = ''No matches found.''"
proof -
  have e: "list_files_array ''/'' ''/ws'' (list_args (Some ''src'') None) example_fs
     = Inr [''src/index.ts'', ''src/nested_modules/nested.js'', ''src/utils.ts'']"
    by code_simp
  have g: "startsWith (path_resolve ''/'' ''/ws'' (relativePath (search_args_ex ''hello''))) ''/ws''"
    by code_simp
  have s: "filter (\<lambda>l. l \<noteq> []) (split_on LF (''a:1:hello'' @ [LF])) = [''a:1:hello'']"
    by code_simp
  show ?thesis
    using C6_output_ceiling[of "''/''" "''/ws''" "list_args (Some ''src'') None" example_fs
          "[''src/index.ts'', ''src/nested_modules/nested.js'', ''src/utils.ts'']"
          "search_args_ex ''hello''" "\<lambda>r. Resolved (''a:1:hello'' @ [LF])" "''a:1:hello'' @ [LF]" "[]"]
      C6_output_ceiling[where files = "replicate 1001 ''f''" and lines = "replicate 501 ''f:1:x''"]
      C6_output_ceiling[where files = "[''a'', ''b'']"]
      e g s
    by (simp add: show_nat_1)
qed

subsection \<open>C7: the case-insensitivity flag\<close>

text \<open>
  C7. When \<^verbatim>\<open>caseSensitive\<close> is not the boolean \<^verbatim>\<open>true\<close> the argument vector holds the
  case-insensitivity flag, and when it is \<^verbatim>\<open>true\<close> it does not. The tool itself pushes
  \<^verbatim>\<open>-i\<close> in the first case only (lemma \<open>grepArgs_case_flag\<close>), but the path is pushed
  last as a bare argument, while the pattern is protected as the value of \<^verbatim>\<open>-e\<close>. The
  path \<^verbatim>\<open>-i\<close> passes the guard, since it resolves to \<^verbatim>\<open>/ws/-i\<close>: with \<^verbatim>\<open>caseSensitive\<close>
  \<^verbatim>\<open>true\<close> the vector given to the process ends with \<^verbatim>\<open>-i\<close>, which stands there as an
  option of its own and not as a value, so the search is case-insensitive.
\<close>

theorem C7_path_stands_as_flag:
  "caseSensitive \<lparr>path = Some ''-i'', pattern = ''HELLO'', include_patterns = None,
       exclude_patterns = None, caseSensitive = JBool True\<rparr> = JBool True
   \<and> startsWith (path_resolve ''/'' ''/ws'' ''-i'') ''/ws''
   \<and> grepArgs \<lparr>path = Some ''-i'', pattern = ''HELLO'', include_patterns = None,
       exclude_patterns = None, caseSensitive = JBool True\<rparr>
     = [''-rIn'', ''-E'', ''--exclude'', ''.git'', ''--exclude-dir'', ''.git'',
        ''--exclude'', ''node_modules'', ''--exclude-dir'', ''node_modules'',
        ''--exclude'', ''dist'', ''--exclude-dir'', ''dist'',
        ''--exclude'', ''coverage'', ''--exclude-dir'', ''coverage'', ''-e'', ''HELLO'', ''-i'']
   \<and> read_options (grepArgs \<lparr>path = Some ''-i'', pattern = ''HELLO'', include_patterns = None,
       exclude_patterns = None, caseSensitive = JBool True\<rparr>)
     = [(''-rIn'', None), (''-E'', None),
        (''--exclude'', Some ''.git''), (''--exclude-dir'', Some ''.git''),
        (''--exclude'', Some ''node_modules''), (''--exclude-dir'', Some ''node_modules''),
        (''--exclude'', Some ''dist''), (''--exclude-dir'', Some ''dist''),
        (''--exclude'', Some ''coverage''), (''--exclude-dir'', Some ''coverage''),
        (''-e'', Some ''HELLO''), (''-i'', None)]
   \<and> search ''/'' ''/ws'' \<lparr>path = Some ''-i'', pattern = ''HELLO'', include_patterns = None,
       exclude_patterns = None, caseSensitive = JBool True\<rparr> echo_args
     = Inr ''-rIn -E --exclude .git --exclude-dir .git --exclude node_modules --exclude-dir node_modules --exclude dist --exclude-dir dist --exclude coverage --exclude-dir coverage -e HELLO -i''"
  by code_simp

subsection \<open>C8: the order of enumeration\<close>

text \<open>
  C8. The array \<open>list_files\<close> returns is sorted, and two trees that hold the same entries
  and enumerate them in different orders give the same result, whatever the parameters.
\<close>

theorem C8_enumeration_order_is_irrelevant:
  assumes "reorder fs fs'" "distinct_node fs"
  shows "list_files processCwd root params fs = list_files processCwd root params fs'
       \<and> (\<forall>files. list_files_array processCwd root params fs = Inr files \<longrightarrow> sorted files)"
proof -
  have a: "list_files processCwd root params fs = list_files processCwd root params fs'"
    unfolding list_files_def reorder_array[OF assms] by simp
  have b: "\<forall>files. list_files_array processCwd root params fs = Inr files \<longrightarrow> sorted files"
    by (auto elim!: array_from_walk)
  show ?thesis using a b by blast
qed

text \<open>The theorem on one tree enumerated in two orders.\<close>

theorem C8_enumeration_order_is_irrelevant_witness:
  "list_files ''/'' ''/ws'' (list_args None None) order_a
     = list_files ''/'' ''/ws'' (list_args None None) order_b
   \<and> list_files_array ''/'' ''/ws'' (list_args None None) order_a = Inr [''a.txt'', ''b.txt'', ''d/x'', ''d/y'']
   \<and> sorted [''a.txt'', ''b.txt'', ''d/x'', ''d/y'']"
proof -
  have d: "distinct_node order_a" by code_simp
  have e: "list_files_array ''/'' ''/ws'' (list_args None None) order_a = Inr [''a.txt'', ''b.txt'', ''d/x'', ''d/y'']"
    by code_simp
  show ?thesis
    using C8_enumeration_order_is_irrelevant[OF reorder_example d, of "''/''" "''/ws''" "list_args None None"] e
    by simp
qed

subsection \<open>C9: the pattern in the argument vector\<close>

text \<open>
  C9. Whatever the pattern is, also when it begins with \<^verbatim>\<open>-\<close>, the argument vector is
  the options of the tool, then \<^verbatim>\<open>-e\<close>, then the pattern as one element of its own,
  then the path. The options before \<^verbatim>\<open>-e\<close> are \<^verbatim>\<open>-rIn\<close>, \<^verbatim>\<open>-i\<close> unless
  \<^verbatim>\<open>caseSensitive\<close> is \<^verbatim>\<open>true\<close>, \<^verbatim>\<open>-E\<close>, \<^verbatim>\<open>--include\<close> with each include entry, and
  \<^verbatim>\<open>--exclude\<close> and \<^verbatim>\<open>--exclude-dir\<close> with each exclude entry; read from the left,
  each option that takes a value is followed by its value, so \<^verbatim>\<open>-e\<close> stands where an
  option is read and the pattern is read as its value, never as an option. When the
  path passes the guard, \<open>search\<close> starts the program \<^verbatim>\<open>grep\<close> with exactly this vector
  (\<^verbatim>\<open>execFile\<close> takes the vector as it is, no shell reads it), in the workspace root, and
  its result is what the outcome of that one request determines.
\<close>

theorem C9_pattern_is_a_value:
  "grepArgs (params\<lparr>pattern := q\<rparr>)
     = [''-rIn''] @ (if caseSensitive params = JBool True then [] else [''-i'']) @ [''-E'']
       @ concat (map (\<lambda>inc. [''--include'', inc])
           (case include_patterns params of None \<Rightarrow> [] | Some incs \<Rightarrow> incs))
       @ concat (map (\<lambda>exc. [''--exclude'', exc, ''--exclude-dir'', exc])
           (case exclude_patterns params of None \<Rightarrow> default_ignore | Some xs \<Rightarrow> xs))
       @ [''-e'', q, relativePath params]
   \<and> read_options (grepArgs (params\<lparr>pattern := q\<rparr>))
     = [(''-rIn'', None)]
       @ (if caseSensitive params = JBool True then [] else [(''-i'', None)])
       @ [(''-E'', None)]
       @ map (\<lambda>inc. (''--include'', Some inc))
           (case include_patterns params of None \<Rightarrow> [] | Some incs \<Rightarrow> incs)
       @ concat (map (\<lambda>exc. [(''--exclude'', Some exc), (''--exclude-dir'', Some exc)])
           (case exclude_patterns params of None \<Rightarrow> default_ignore | Some xs \<Rightarrow> xs))
       @ [(''-e'', Some q), (relativePath params, None)]
   \<and> (startsWith (path_resolve processCwd root (relativePath params)) root \<longrightarrow>
        search processCwd root (params\<lparr>pattern := q\<rparr>) exec
          = (case exec \<lparr>exec_file = ''grep'', exec_args = grepArgs (params\<lparr>pattern := q\<rparr>),
                        exec_cwd = root, exec_maxBuffer = 1048576\<rparr> of
               Resolved out \<Rightarrow> Inr (search_text (filter (\<lambda>l. l \<noteq> []) (split_on LF out)))
             | Rejected err \<Rightarrow>
                 if code err = CodeNumber 1 then Inr ''No matches found.''
                 else if code err = CodeNumber 2
                 then Inl (ToolInputError (''Grep error: '' @
                        (case stderr err of
                           None \<Rightarrow> message err
                         | Some d \<Rightarrow> if d \<noteq> [] then d else message err)))
                 else Inl (ExecError err)))"
proof -
  let ?incs = "case include_patterns params of None \<Rightarrow> [] | Some incs \<Rightarrow> incs"
  let ?excs = "case exclude_patterns params of None \<Rightarrow> default_ignore | Some xs \<Rightarrow> xs"
  have rp: "relativePath (params\<lparr>pattern := q\<rparr>) = relativePath params"
    by (simp add: relativePath_def)
  have a: "grepArgs (params\<lparr>pattern := q\<rparr>)
     = [''-rIn''] @ (if caseSensitive params = JBool True then [] else [''-i'']) @ [''-E'']
       @ concat (map (\<lambda>inc. [''--include'', inc]) ?incs)
       @ concat (map (\<lambda>exc. [''--exclude'', exc, ''--exclude-dir'', exc]) ?excs)
       @ [''-e'', q, relativePath params]"
    by (cases "include_patterns params") (simp_all add: grepArgs_def rp)
  have tail: "read_options [''-e'', q, relativePath params]
              = [(''-e'', Some q), (relativePath params, None)]"
    by (simp add: takes_value_def)
  have nv: "\<not> takes_value ''-rIn''" "\<not> takes_value ''-i''" "\<not> takes_value ''-E''"
    by (simp_all add: takes_value_def)
  have mid: "read_options (concat (map (\<lambda>inc. [''--include'', inc]) ?incs)
       @ concat (map (\<lambda>exc. [''--exclude'', exc, ''--exclude-dir'', exc]) ?excs)
       @ [''-e'', q, relativePath params])
     = map (\<lambda>inc. (''--include'', Some inc)) ?incs
       @ concat (map (\<lambda>exc. [(''--exclude'', Some exc), (''--exclude-dir'', Some exc)]) ?excs)
       @ [(''-e'', Some q), (relativePath params, None)]"
    unfolding read_includes read_excludes tail ..
  have b: "read_options (grepArgs (params\<lparr>pattern := q\<rparr>))
     = [(''-rIn'', None)]
       @ (if caseSensitive params = JBool True then [] else [(''-i'', None)])
       @ [(''-E'', None)]
       @ map (\<lambda>inc. (''--include'', Some inc)) ?incs
       @ concat (map (\<lambda>exc. [(''--exclude'', Some exc), (''--exclude-dir'', Some exc)]) ?excs)
       @ [(''-e'', Some q), (relativePath params, None)]"
    unfolding a
    by (cases "caseSensitive params = JBool True")
       (simp_all add: read_flag[OF nv(1)] read_flag[OF nv(2)] read_flag[OF nv(3)] mid
          del: read_options.simps)
  have c: "startsWith (path_resolve processCwd root (relativePath params)) root \<longrightarrow>
        search processCwd root (params\<lparr>pattern := q\<rparr>) exec
          = (case exec \<lparr>exec_file = ''grep'', exec_args = grepArgs (params\<lparr>pattern := q\<rparr>),
                        exec_cwd = root, exec_maxBuffer = 1048576\<rparr> of
               Resolved out \<Rightarrow> Inr (search_text (filter (\<lambda>l. l \<noteq> []) (split_on LF out)))
             | Rejected err \<Rightarrow>
                 if code err = CodeNumber 1 then Inr ''No matches found.''
                 else if code err = CodeNumber 2
                 then Inl (ToolInputError (''Grep error: '' @
                        (case stderr err of
                           None \<Rightarrow> message err
                         | Some d \<Rightarrow> if d \<noteq> [] then d else message err)))
                 else Inl (ExecError err))"
    by (simp add: search_def grep_request_def rp)
  show ?thesis using a b c by blast
qed

text \<open>
  The theorem on the pattern \<^verbatim>\<open>-v\<close> with default parameters, and a process that answers
  with the vector it was given: the pattern is the value of \<^verbatim>\<open>-e\<close>.
\<close>

theorem C9_pattern_is_a_value_witness:
  "grepArgs (search_args_ex ''-v'')
     = [''-rIn'', ''-i'', ''-E'', ''--exclude'', ''.git'', ''--exclude-dir'', ''.git'',
        ''--exclude'', ''node_modules'', ''--exclude-dir'', ''node_modules'',
        ''--exclude'', ''dist'', ''--exclude-dir'', ''dist'',
        ''--exclude'', ''coverage'', ''--exclude-dir'', ''coverage'', ''-e'', ''-v'', ''.'']
   \<and> read_options (grepArgs (search_args_ex ''-v''))
     = [(''-rIn'', None), (''-i'', None), (''-E'', None),
        (''--exclude'', Some ''.git''), (''--exclude-dir'', Some ''.git''),
        (''--exclude'', Some ''node_modules''), (''--exclude-dir'', Some ''node_modules''),
        (''--exclude'', Some ''dist''), (''--exclude-dir'', Some ''dist''),
        (''--exclude'', Some ''coverage''), (''--exclude-dir'', Some ''coverage''),
        (''-e'', Some ''-v''), (''.'', None)]
   \<and> search ''/'' ''/ws'' (search_args_ex ''-v'') echo_args
     = Inr ''-rIn -i -E --exclude .git --exclude-dir .git --exclude node_modules --exclude-dir node_modules --exclude dist --exclude-dir dist --exclude coverage --exclude-dir coverage -e -v .''"
proof -
  have u: "(search_args_ex ''x'')\<lparr>pattern := ''-v''\<rparr> = search_args_ex ''-v''"
    by (simp add: search_args_ex_def)
  have g: "startsWith (path_resolve ''/'' ''/ws'' (relativePath (search_args_ex ''x''))) ''/ws''"
    by code_simp
  have e: "(case echo_args \<lparr>exec_file = ''grep'', exec_args = grepArgs (search_args_ex ''-v''),
                        exec_cwd = ''/ws'', exec_maxBuffer = 1048576\<rparr> of
               Resolved out \<Rightarrow> Inr (search_text (filter (\<lambda>l. l \<noteq> []) (split_on LF out)))
             | Rejected err \<Rightarrow>
                 if code err = CodeNumber 1 then Inr ''No matches found.''
                 else if code err = CodeNumber 2
                 then Inl (ToolInputError (''Grep error: '' @
                        (case stderr err of
                           None \<Rightarrow> message err
                         | Some d \<Rightarrow> if d \<noteq> [] then d else message err)))
                 else Inl (ExecError err))
     = Inr ''-rIn -i -E --exclude .git --exclude-dir .git --exclude node_modules --exclude-dir node_modules --exclude dist --exclude-dir dist --exclude coverage --exclude-dir coverage -e -v .''"
    by code_simp
  have d: "default_ignore = [''.git'', ''node_modules'', ''dist'', ''coverage'']"
    by (simp add: default_ignore_def)
  have f: "relativePath (search_args_ex ''x'') = ''.''"
    "caseSensitive (search_args_ex ''x'') \<noteq> JBool True"
    "include_patterns (search_args_ex ''x'') = None"
    "exclude_patterns (search_args_ex ''x'') = None"
    by (simp_all add: search_args_ex_def relativePath_def)
  note T = C9_pattern_is_a_value[where params = "search_args_ex ''x''" and q = "''-v''"
      and processCwd = "''/''" and root = "''/ws''" and exec = echo_args, unfolded u]
  from T[THEN conjunct1] have 1: "grepArgs (search_args_ex ''-v'')
     = [''-rIn'', ''-i'', ''-E'', ''--exclude'', ''.git'', ''--exclude-dir'', ''.git'',
        ''--exclude'', ''node_modules'', ''--exclude-dir'', ''node_modules'',
        ''--exclude'', ''dist'', ''--exclude-dir'', ''dist'',
        ''--exclude'', ''coverage'', ''--exclude-dir'', ''coverage'', ''-e'', ''-v'', ''.'']"
    by (simp add: f d)
  from T[THEN conjunct2, THEN conjunct1] have 2: "read_options (grepArgs (search_args_ex ''-v''))
     = [(''-rIn'', None), (''-i'', None), (''-E'', None),
        (''--exclude'', Some ''.git''), (''--exclude-dir'', Some ''.git''),
        (''--exclude'', Some ''node_modules''), (''--exclude-dir'', Some ''node_modules''),
        (''--exclude'', Some ''dist''), (''--exclude-dir'', Some ''dist''),
        (''--exclude'', Some ''coverage''), (''--exclude-dir'', Some ''coverage''),
        (''-e'', Some ''-v''), (''.'', None)]"
    by (simp add: f d del: read_options.simps)
  from T[THEN conjunct2, THEN conjunct2] g have 3: "search ''/'' ''/ws'' (search_args_ex ''-v'') echo_args
     = Inr ''-rIn -i -E --exclude .git --exclude-dir .git --exclude node_modules --exclude-dir node_modules --exclude dist --exclude-dir dist --exclude coverage --exclude-dir coverage -e -v .''"
    unfolding e by blast
  show ?thesis using 1 2 3 by blast
qed

subsection \<open>C10: entries carry the start path\<close>

text \<open>
  C10, as amended. The claim says every returned entry is a root-relative path that
  begins with the path argument \<open>p\<close> and a separator. \<^verbatim>\<open>path.join\<close> normalises the
  accumulated path, so the entries begin with the prefix \<^verbatim>\<open>path.join\<close> gives the start:
  on a tree of valid names, for every path argument, every returned entry begins with
  \<open>start_prefix p\<close>, which is \<open>p\<close> and a separator when \<open>p\<close> is a relative path of valid
  names joined by single separators. The returned array is the sorted listing in which
  every entry below the start is written as this prefix followed by its names below the
  start and tested against the ignore patterns in that form. Each entry is relative to
  the root: where names are distinct within a directory and the working directory is
  absolute, the entry resolved against the workspace root is the node that its names
  after the prefix lead to from the listing start. So a pattern with an interior slash is
  matched against the entry as it is returned, not against its path relative to the
  listing start: no returned entry is matched by such a pattern of the ignore list, and
  such a pattern that matches no string beginning with the prefix excludes nothing.
\<close>

theorem C10_entries_carry_start_path:
  assumes fs: "valid_node fs"
    and res: "list_files_array processCwd root params fs = Inr files"
  shows "(\<forall>r \<in> set files.
            startsWith r (start_prefix (relativePath params))
            \<and> (\<forall>q \<in> set (case ignore params of None \<Rightarrow> default_ignore | Some xs \<Rightarrow> xs).
                  hasSlash q \<longrightarrow>
                  regex_test (globToRegex q) (without_trailing_slash r) \<noteq> Some True))
       \<and> (clean_rel (relativePath params) \<longrightarrow>
            (\<forall>r \<in> set files. startsWith r (relativePath params @ ''/'')))
       \<and> (\<exists>entries.
            fs_stat fs (path_resolve processCwd root (relativePath params)) = Inr (Dir entries)
            \<and> files = sort (root_relative_listing (recursive params \<noteq> JBool False)
                         (case ignore params of None \<Rightarrow> default_ignore | Some xs \<Rightarrow> xs)
                         entries (start_prefix (relativePath params)))
            \<and> (processCwd \<noteq> [] \<and> hd processCwd = CHR ''/'' \<and> distinct_node fs \<longrightarrow>
                 (\<forall>r \<in> set files. \<exists>s nd.
                    r = start_prefix (relativePath params) @ s
                    \<and> fs_lookup (path_segments s) (Dir entries) = Inr nd
                    \<and> fs_stat fs (path_resolve processCwd root r) = Inr nd)))
       \<and> (\<forall>q. hasSlash q
              \<and> (\<forall>t. startsWith t (start_prefix (relativePath params)) \<longrightarrow>
                     regex_test (globToRegex q) t \<noteq> Some True) \<longrightarrow>
              list_files_array processCwd root (params\<lparr>ignore := Some [q]\<rparr>) fs
                = list_files_array processCwd root (params\<lparr>ignore := Some []\<rparr>) fs)"
proof -
  let ?ign = "case ignore params of None \<Rightarrow> default_ignore | Some xs \<Rightarrow> xs"
  let ?pre = "start_prefix (relativePath params)"
  let ?rec = "recursive params \<noteq> JBool False"
  from fs res obtain entries where
    st: "fs_stat fs (path_resolve processCwd root (relativePath params)) = Inr (Dir entries)"
    and ve: "valid_entries entries"
    and files: "files = sort (root_relative_listing ?rec ?ign entries ?pre)"
    by (rule array_listing)
  have a: "startsWith r ?pre
            \<and> (\<forall>q \<in> set ?ign. hasSlash q \<longrightarrow>
                  regex_test (globToRegex q) (without_trailing_slash r) \<noteq> Some True)"
    if r: "r \<in> set files" for r
  proof -
    from r files have "r \<in> set (root_relative_listing ?rec ?ign entries ?pre)" by simp
    from listing_shape[OF ve this] obtain names where
      n: "names \<noteq> []" "list_all valid_name names"
        "\<not> matchesPattern (?pre @ join_with ''/'' names) (last names) ?ign"
        "r = ?pre @ join_with ''/'' names \<or> r = ?pre @ join_with ''/'' names @ ''/''"
      by blast
    have p: "startsWith r ?pre" using n(4) by (auto simp: startsWith_def)
    have s: "without_trailing_slash r = ?pre @ join_with ''/'' names"
      using n(1,2,4) by (rule strip_listed)
    have "\<forall>q \<in> set ?ign. hasSlash q \<longrightarrow>
            regex_test (globToRegex q) (without_trailing_slash r) \<noteq> Some True"
      unfolding s hasSlash_def using not_matched_interior[OF n(3)] by blast
    with p show ?thesis by blast
  qed
  have b: "\<forall>r \<in> set files. startsWith r (relativePath params @ ''/'')"
    if "clean_rel (relativePath params)"
    using a start_prefix_clean[OF that] by simp
  have c: "list_files_array processCwd root (params\<lparr>ignore := Some [q]\<rparr>) fs
           = list_files_array processCwd root (params\<lparr>ignore := Some []\<rparr>) fs"
    if q: "hasSlash q"
      and nm: "\<forall>t. startsWith t ?pre \<longrightarrow> regex_test (globToRegex q) t \<noteq> Some True" for q
  proof -
    have "\<forall>t bn. startsWith t ?pre \<longrightarrow> \<not> matchesPattern t bn [q]"
      using nm matches_single_hasSlash[OF q] by blast
    then have "root_relative_listing ?rec [q] entries ?pre = root_relative_listing ?rec [] entries ?pre"
      by (rule listing_unmatched)
    then have "walk ?rec [q] entries (if relativePath params = ''.'' then [] else relativePath params)
             = walk ?rec [] entries (if relativePath params = ''.'' then [] else relativePath params)"
      unfolding walk_listing[OF ve] start_prefix_def .
    moreover have "relativePath (params\<lparr>ignore := i\<rparr>) = relativePath params" for i
      by (simp add: relativePath_def)
    ultimately show ?thesis using st
      by (cases "relativePath params = ''.''") (simp_all add: list_files_array_def Let_def)
  qed
  have d: "\<exists>s nd. r = ?pre @ s
                    \<and> fs_lookup (path_segments s) (Dir entries) = Inr nd
                    \<and> fs_stat fs (path_resolve processCwd root r) = Inr nd"
    if pc: "processCwd \<noteq> []" "hd processCwd = CHR ''/''" and dn: "distinct_node fs"
      and r: "r \<in> set files" for r
  proof -
    have de: "distinct_entries entries"
      using distinct_lookup[OF dn st[unfolded fs_stat_def]] by (simp add: distinct_node_def)
    from r files have "r \<in> set (root_relative_listing ?rec ?ign entries ?pre)" by simp
    with ve de pc st show ?thesis by (rule entries_resolve)
  qed
  have e: "fs_stat fs (path_resolve processCwd root (relativePath params)) = Inr (Dir entries)
            \<and> files = sort (root_relative_listing ?rec ?ign entries ?pre)
            \<and> (processCwd \<noteq> [] \<and> hd processCwd = CHR ''/'' \<and> distinct_node fs \<longrightarrow>
                 (\<forall>r \<in> set files. \<exists>s nd.
                    r = ?pre @ s
                    \<and> fs_lookup (path_segments s) (Dir entries) = Inr nd
                    \<and> fs_stat fs (path_resolve processCwd root r) = Inr nd))"
    using st files d by blast
  show ?thesis using a b c e by blast
qed

text \<open>
  The theorem on the test workspace with the start \<^verbatim>\<open>src\<close>: the pattern
  \<^verbatim>\<open>src/nested_modules\<close> excludes the directory, the pattern \<^verbatim>\<open>nested_modules/nested.js\<close>,
  relative to the start, excludes nothing. With the start \<^verbatim>\<open>./src\<close> the prefix is
  \<^verbatim>\<open>src/\<close>, and \<^verbatim>\<open>src/index.ts\<close> resolved against the root is a file of the tree. The
  starts \<^verbatim>\<open>./\<close> and \<^verbatim>\<open>src/..\<close> have the empty prefix, the absolute start \<^verbatim>\<open>/ws/src\<close>
  the prefix \<^verbatim>\<open>/ws/src/\<close>.
\<close>

theorem C10_entries_carry_start_path_witness:
  "clean_rel ''src''
   \<and> list_files_array ''/'' ''/ws'' (list_args (Some ''src'') (Some [''src/nested_modules'']))
       example_fs = Inr [''src/index.ts'', ''src/utils.ts'']
   \<and> startsWith ''src/utils.ts'' (''src'' @ ''/'')
   \<and> regex_test (globToRegex ''src/nested_modules'') (without_trailing_slash ''src/utils.ts'')
       \<noteq> Some True
   \<and> list_files_array ''/'' ''/ws'' (list_args (Some ''src'') (Some [''nested_modules/nested.js'']))
       example_fs
       = list_files_array ''/'' ''/ws'' (list_args (Some ''src'') (Some [])) example_fs
   \<and> list_files_array ''/'' ''/ws'' (list_args (Some ''src'') (Some [''nested_modules/nested.js'']))
       example_fs = Inr [''src/index.ts'', ''src/nested_modules/nested.js'', ''src/utils.ts'']
   \<and> list_files_array ''/'' ''/ws'' (list_args (Some ''./src'') None) example_fs
       = Inr [''src/index.ts'', ''src/nested_modules/nested.js'', ''src/utils.ts'']
   \<and> start_prefix ''./src'' = ''src/''
   \<and> startsWith ''src/index.ts'' (start_prefix ''./src'')
   \<and> start_prefix ''./'' = [] \<and> start_prefix ''src/..'' = []
   \<and> start_prefix ''/ws/src'' = ''/ws/src/''
   \<and> distinct_node example_fs
   \<and> (\<exists>nd. fs_stat example_fs (path_resolve ''/'' ''/ws'' ''src/index.ts'') = Inr nd)
   \<and> fs_stat example_fs (path_resolve ''/'' ''/ws'' ''src/index.ts'') = Inr File"
proof -
  let ?A = "list_args (Some ''src'') (Some [''src/nested_modules''])"
  let ?B = "list_args (Some ''./src'') None"
  have v: "valid_node example_fs" by code_simp
  have dn: "distinct_node example_fs" by code_simp
  have c: "clean_rel ''src''" by code_simp
  have e: "list_files_array ''/'' ''/ws'' ?A example_fs = Inr [''src/index.ts'', ''src/utils.ts'']"
    by code_simp
  have f: "list_files_array ''/'' ''/ws'' (list_args (Some ''src'') (Some [''nested_modules/nested.js'']))
       example_fs = Inr [''src/index.ts'', ''src/nested_modules/nested.js'', ''src/utils.ts'']"
    by code_simp
  have g: "list_files_array ''/'' ''/ws'' ?B example_fs
       = Inr [''src/index.ts'', ''src/nested_modules/nested.js'', ''src/utils.ts'']"
    by code_simp
  have sp: "start_prefix ''./src'' = ''src/''" "start_prefix ''src'' = ''src/''" by code_simp+
  have sq: "start_prefix ''./'' = []" "start_prefix ''src/..'' = []"
    "start_prefix ''/ws/src'' = ''/ws/src/''"
    by code_simp+
  have p: "relativePath ?A = ''src''" "relativePath ?B = ''./src''"
    by (simp_all add: relativePath_def list_args_def)
  have h: "hasSlash ''src/nested_modules''" "hasSlash ''nested_modules/nested.js''" by code_simp+
  have st: "fs_stat example_fs (path_resolve ''/'' ''/ws'' ''src/index.ts'') = Inr File"
    by code_simp
  have nm: "\<forall>t. startsWith t (start_prefix (relativePath ?A)) \<longrightarrow>
               regex_test (globToRegex ''nested_modules/nested.js'') t \<noteq> Some True"
  proof (intro allI impI)
    fix t assume s: "startsWith t (start_prefix (relativePath ?A))"
    have "\<not> startsWith ''nested_modules/nested.js'' ''src/''" by code_simp
    then have "t \<noteq> ''nested_modules/nested.js''" using s unfolding p sp by auto
    moreover have "regex_test (globToRegex ''nested_modules/nested.js'') t
                   = Some (t = ''nested_modules/nested.js'')"
      by (rule exact_pattern) (simp_all add: endsWith_def)
    ultimately show "regex_test (globToRegex ''nested_modules/nested.js'') t \<noteq> Some True" by simp
  qed
  note A = C10_entries_carry_start_path[OF v e, unfolded p sp]
  note B = C10_entries_carry_start_path[OF v g, unfolded p sp]
  have 1: "startsWith ''src/utils.ts'' (''src'' @ ''/'')" using A c by simp
  have 2: "regex_test (globToRegex ''src/nested_modules'') (without_trailing_slash ''src/utils.ts'')
       \<noteq> Some True"
    using A h(1) by (simp add: list_args_def)
  have 3: "list_files_array ''/'' ''/ws'' (?A\<lparr>ignore := Some [''nested_modules/nested.js'']\<rparr>) example_fs
       = list_files_array ''/'' ''/ws'' (?A\<lparr>ignore := Some []\<rparr>) example_fs"
    using A h(2) nm[unfolded p sp] by blast
  have 4: "startsWith ''src/index.ts'' (start_prefix ''./src'')" using B unfolding sp by simp
  have 5: "\<exists>nd. fs_stat example_fs (path_resolve ''/'' ''/ws'' ''src/index.ts'') = Inr nd"
    using B dn by auto
  show ?thesis using c e f g sp(1) sq 1 2 3 4 5 dn st by (simp add: list_args_def)
qed

text \<open>
  The claim as stated fails for the path argument \<^verbatim>\<open>./src\<close>: the entries begin with
  \<^verbatim>\<open>src/\<close>.
\<close>

theorem C10_dot_slash_start_counterexample:
  "list_files_array ''/'' ''/ws'' (list_args (Some ''./src'') None) example_fs
     = Inr [''src/index.ts'', ''src/nested_modules/nested.js'', ''src/utils.ts'']
   \<and> \<not> startsWith ''src/index.ts'' (''./src'' @ ''/'')"
  by code_simp

end
